theory Spec2Isabelle
  imports Main
begin

section \<open>Values of the document store\<close>

text \<open>
  Every value that \<^verbatim>\<open>index.js\<close> handles comes out of a JSON response of the database
  service or out of the JSON cache file, so a value is a JSON value. An object is the list
  of its entries in the order \<^verbatim>\<open>Object.entries\<close> enumerates them. The program performs
  no arithmetic on field values, so a number is kept as an integer. A property that is
  absent reads as \<^verbatim>\<open>undefined\<close>, which is \<open>None\<close> of a \<open>json option\<close>.
\<close>

datatype json =
    JNull
  | JBool bool
  | JNum int
  | JStr string
  | JArr "json list"
  | JObj "(string \<times> json) list"

type_synonym obj = "(string \<times> json) list"

type_synonym jsval = "json option"

text \<open>\<^verbatim>\<open>o[k]\<close> on an object.\<close>

definition field :: "string \<Rightarrow> obj \<Rightarrow> jsval" where
  "field k ob = map_of ob k"

text \<open>\<^verbatim>\<open>k in o\<close>.\<close>

definition hasKey :: "string \<Rightarrow> obj \<Rightarrow> bool" where
  "hasKey k ob = (k \<in> set (map fst ob))"

text \<open>
  \<^verbatim>\<open>o[k] = v\<close> on an object that the program has made with \<^verbatim>\<open>{}\<close>: an existing property
  keeps its place and takes the new value, a new property goes to the end.
\<close>

fun put :: "string \<Rightarrow> json \<Rightarrow> obj \<Rightarrow> obj" where
  "put k v [] = [(k, v)]"
| "put k v ((k', v') # rest) =
     (if k' = k then (k, v) # rest else (k', v') # put k v rest)"

text \<open>
  The key \<^verbatim>\<open>__proto__\<close> is the exception. \<^verbatim>\<open>Object.prototype\<close> has a setter under this name,
  so the assignment makes no property: it replaces the prototype of the object when the
  value is an object or \<^verbatim>\<open>null\<close>, and does nothing otherwise. (An object that comes out of
  \<^verbatim>\<open>JSON.parse\<close> can have \<^verbatim>\<open>__proto__\<close> as a property of its own, and \<^verbatim>\<open>Object.entries\<close>
  gives it like any other.) The prototype is not part of a value here. The program reads
  the objects that it has built through \<^verbatim>\<open>Object.entries\<close> and \<^verbatim>\<open>JSON.stringify\<close>, which
  give the properties of the object itself; and \<^verbatim>\<open>'$id' in obj\<close> finds nothing more in a
  prototype that was set this way inside a cleaned value, which is a cleaned object or an
  array and so has no property \<^verbatim>\<open>$id\<close>.
\<close>

definition assign :: "string \<Rightarrow> json \<Rightarrow> obj \<Rightarrow> obj" where
  "assign k v ob = (if k = ''__proto__'' then ob else put k v ob)"

text \<open>JavaScript truthiness of a value read from a property.\<close>

fun truthy :: "jsval \<Rightarrow> bool" where
  "truthy None = False"
| "truthy (Some JNull) = False"
| "truthy (Some (JBool b)) = b"
| "truthy (Some (JNum n)) = (n \<noteq> 0)"
| "truthy (Some (JStr s)) = (s \<noteq> [])"
| "truthy (Some (JArr xs)) = True"
| "truthy (Some (JObj ob)) = True"

section \<open>Document sanitizer\<close>

text \<open>The \<^verbatim>\<open>systemFields\<close> array of \<^verbatim>\<open>cleanDocumentData\<close>.\<close>

definition systemFields :: "string list" where
  "systemFields =
     [''$id'', ''$collectionId'', ''$databaseId'', ''$createdAt'', ''$updatedAt'',
      ''$permissions'', ''$sequence'']"

text \<open>
  \<^verbatim>\<open>isRelatedDocument(obj)\<close>: a non-null, non-array object with both \<^verbatim>\<open>$id\<close> and
  \<^verbatim>\<open>$collectionId\<close>.
\<close>

fun isRelatedDocument :: "json \<Rightarrow> bool" where
  "isRelatedDocument (JObj ob) = (hasKey ''$id'' ob \<and> hasKey ''$collectionId'' ob)"
| "isRelatedDocument _ = False"

lemma size_entry_less:
  "(k, v) \<in> set ob \<Longrightarrow> size v < Suc (size_list (size_prod (\<lambda>_. 0) size) ob)"
  by (induction ob) auto

text \<open>
  \<^verbatim>\<open>cleanNestedObject(obj, systemFields)\<close>: drops the entries whose key is a system field;
  an object value is cleaned recursively, an array value is mapped (object items are cleaned
  recursively, every other item is kept as it is), any other value is kept.
\<close>

function cleanNestedObject :: "obj \<Rightarrow> string list \<Rightarrow> obj" where
  "cleanNestedObject ob sf =
     fold (\<lambda>(key, v) cleaned.
        if key \<in> set sf then cleaned
        else (case v of
            JObj inner \<Rightarrow> assign key (JObj (cleanNestedObject inner sf)) cleaned
          | JArr items \<Rightarrow>
              assign key
                (JArr (map (\<lambda>item. case item of
                                     JObj io \<Rightarrow> JObj (cleanNestedObject io sf)
                                   | _ \<Rightarrow> item) items))
                cleaned
          | _ \<Rightarrow> assign key v cleaned))
       ob []"
  by pat_completeness auto
termination
proof (relation "measure (\<lambda>(ob, sf). size_list (size_prod (\<lambda>_. 0) size) ob)")
  show "wf (measure (\<lambda>(ob, sf). size_list (size_prod (\<lambda>_. 0) size) ob))"
    by simp
next
  fix ob :: obj and sf :: "string list" and x key v cleaned inner
  assume "x \<in> set ob" "(key, v) = x" "v = JObj inner"
  then have "(key, JObj inner) \<in> set ob" by simp
  from size_entry_less [OF this]
  show "((inner, sf), ob, sf) \<in> measure (\<lambda>(ob, sf). size_list (size_prod (\<lambda>_. 0) size) ob)"
    by simp
next
  fix ob :: obj and sf :: "string list" and x key v cleaned items item io
  assume "x \<in> set ob" "(key, v) = x" "v = JArr items" "item \<in> set items" "item = JObj io"
  then have mem: "(key, JArr items) \<in> set ob" and it: "JObj io \<in> set items" by simp_all
  from it have "size (JObj io) \<le> size_list size items"
    by (induction items) auto
  with size_entry_less [OF mem]
  show "((io, sf), ob, sf) \<in> measure (\<lambda>(ob, sf). size_list (size_prod (\<lambda>_. 0) size) ob)"
    by simp
qed

declare cleanNestedObject.simps [simp del]

text \<open>The arrow function that \<^verbatim>\<open>cleanDocumentData\<close> maps over an array value.\<close>

definition cleanItem :: "json \<Rightarrow> json" where
  "cleanItem item =
     (if isRelatedDocument item then
        (case item of JObj io \<Rightarrow> (case field ''$id'' io of Some i \<Rightarrow> i | None \<Rightarrow> JNull)
                    | _ \<Rightarrow> item)
      else (case item of JObj io \<Rightarrow> JObj (cleanNestedObject io systemFields) | _ \<Rightarrow> item))"

text \<open>
  \<^verbatim>\<open>cleanDocumentData(document)\<close>. The branch order is the source's: array, related
  document, object, anything else. In the related-document branches \<^verbatim>\<open>$id\<close> is present
  (that is what \<^verbatim>\<open>isRelatedDocument\<close> tested), so the \<open>None\<close> cases cannot be reached.
\<close>

definition cleanDocumentData :: "obj \<Rightarrow> obj" where
  "cleanDocumentData document =
     fold (\<lambda>(key, v) cleanedData.
        if key \<in> set systemFields then cleanedData
        else (case v of
            JArr items \<Rightarrow> assign key (JArr (map cleanItem items)) cleanedData
          | JObj inner \<Rightarrow>
              (if isRelatedDocument v then
                 assign key (case field ''$id'' inner of Some i \<Rightarrow> i | None \<Rightarrow> JNull) cleanedData
               else assign key (JObj (cleanNestedObject inner systemFields)) cleanedData)
          | _ \<Rightarrow> assign key v cleanedData))
       document []"

section \<open>Properties of cleaned documents\<close>

text \<open>
  The keys that a cleaning function carries over: a system field is skipped, and the
  assignment under \<^verbatim>\<open>__proto__\<close> makes no property.
\<close>

definition carried :: "string \<Rightarrow> bool" where
  "carried k = (k \<notin> set systemFields \<and> k \<noteq> ''__proto__'')"

text \<open>
  The loop that both cleaning functions run: every entry whose key is not in \<open>S\<close> is
  stored under its key with the value \<open>f v\<close>.
\<close>

definition storeAll :: "string set \<Rightarrow> (json \<Rightarrow> json) \<Rightarrow> obj \<Rightarrow> obj \<Rightarrow> obj" where
  "storeAll S f ob acc =
     fold (\<lambda>(key, v) cleaned. if key \<in> S then cleaned else put key (f v) cleaned) ob acc"

text \<open>
  What \<^verbatim>\<open>cleanNestedObject\<close> stores for an array item and for a field value, and what
  \<^verbatim>\<open>cleanDocumentData\<close> stores for a field value.
\<close>

definition nestedItem :: "string list \<Rightarrow> json \<Rightarrow> json" where
  "nestedItem sf item = (case item of JObj io \<Rightarrow> JObj (cleanNestedObject io sf) | _ \<Rightarrow> item)"

definition nestedValue :: "string list \<Rightarrow> json \<Rightarrow> json" where
  "nestedValue sf v =
     (case v of
        JObj inner \<Rightarrow> JObj (cleanNestedObject inner sf)
      | JArr items \<Rightarrow> JArr (map (nestedItem sf) items)
      | _ \<Rightarrow> v)"

definition topValue :: "json \<Rightarrow> json" where
  "topValue v =
     (case v of
        JArr items \<Rightarrow> JArr (map cleanItem items)
      | JObj inner \<Rightarrow>
          (if isRelatedDocument v then (case field ''$id'' inner of Some i \<Rightarrow> i | None \<Rightarrow> JNull)
           else JObj (cleanNestedObject inner systemFields))
      | _ \<Rightarrow> v)"

text \<open>No system field is a key of the value, at any depth.\<close>

fun metaFree :: "json \<Rightarrow> bool" where
  "metaFree (JObj ob) = (\<forall>(k, v) \<in> set ob. k \<notin> set systemFields \<and> metaFree v)"
| "metaFree (JArr xs) = (\<forall>x \<in> set xs. metaFree x)"
| "metaFree _ = True"

text \<open>
  Every array that is an element of an array holds no system field, at any depth. (The
  cleaning functions copy such an array as it is.)
\<close>

fun isArray :: "json \<Rightarrow> bool" where
  "isArray (JArr xs) = True"
| "isArray _ = False"

fun innerArraysClean :: "json \<Rightarrow> bool" where
  "innerArraysClean (JObj ob) = (\<forall>(k, v) \<in> set ob. innerArraysClean v)"
| "innerArraysClean (JArr xs) =
     (\<forall>x \<in> set xs. if isArray x then metaFree x else innerArraysClean x)"
| "innerArraysClean _ = True"

text \<open>
  The identifier of a relationship-shaped value: what its \<^verbatim>\<open>$id\<close> holds. A value that is
  neither an object nor an array is primitive. A document meets \<open>relationIdsArePrimitive\<close>
  when every relationship-shaped value that is the value of one of its fields, or an
  element of an array that is, has a primitive identifier.
\<close>

fun relatedId :: "json \<Rightarrow> jsval" where
  "relatedId (JObj ob) = field ''$id'' ob"
| "relatedId _ = None"

fun primitive :: "json \<Rightarrow> bool" where
  "primitive (JObj ob) = False"
| "primitive (JArr xs) = False"
| "primitive _ = True"

definition primitiveIdIfRelated :: "json \<Rightarrow> bool" where
  "primitiveIdIfRelated v =
     (isRelatedDocument v \<longrightarrow> (case relatedId v of Some i \<Rightarrow> primitive i | None \<Rightarrow> False))"

definition topIdsArePrimitive :: "json \<Rightarrow> bool" where
  "topIdsArePrimitive v =
     (case v of JArr items \<Rightarrow> (\<forall>item \<in> set items. primitiveIdIfRelated item)
              | _ \<Rightarrow> primitiveIdIfRelated v)"

definition relationIdsArePrimitive :: "obj \<Rightarrow> bool" where
  "relationIdsArePrimitive d = (\<forall>(k, v) \<in> set d. carried k \<longrightarrow> topIdsArePrimitive v)"

section \<open>The database service, the timer and the cache file\<close>

text \<open>
  Everything \<^verbatim>\<open>index.js\<close> does to the outside world is a call: a request to the database
  service (\<^verbatim>\<open>databases.list...\<close>, \<^verbatim>\<open>databases.create...\<close>), the one-second timer of the
  readiness polls, and the three operations on the cache file. The arguments are the ones
  the source passes, in its order. \<^verbatim>\<open>Query.limit(n)\<close> and \<^verbatim>\<open>Query.cursorAfter(id)\<close> are
  the last two arguments of a listing call (the cursor is \<open>None\<close> when the query is not
  added). \<^verbatim>\<open>ID.unique()\<close> is chosen by the SDK and is not an argument here.
\<close>

datatype call =
    ListCollections string nat jsval
  | ListAttributes string jsval nat jsval
  | ListIndexes string jsval nat jsval
  | ListDocuments string jsval nat jsval
  | CreateCollection string jsval jsval jsval jsval jsval
  | CreateAttribute string string jsval "jsval list"
  | CreateIndex string jsval jsval jsval jsval jsval
  | CreateDocument string jsval obj
  | Sleep nat
  | WriteCache json
  | ReadCache
  | DeleteCache

text \<open>
  A call is answered with a failure carrying the error message (a rejected promise, a
  thrown file-system error), with a page of items (the array in a listing response), or
  with a plain acknowledgement.
\<close>

datatype response = Failed string | Listed "obj list" | Done

text \<open>A thrown JavaScript error; the program reads nothing of it but \<^verbatim>\<open>error.message\<close>.\<close>

datatype exn = Error string

fun message :: "exn \<Rightarrow> string" where
  "message (Error m) = m"

text \<open>
  The state of a run is the history of the calls made so far with their answers. The
  outside world is a function from the history and the next call to its answer: any
  deterministic service is one. A computation takes the history and gives either nothing
  (it runs forever) or its result (a thrown error on the left, a value on the right) with
  the extended history.
\<close>

type_synonym history = "(call \<times> response) list"

type_synonym env = "history \<Rightarrow> call \<Rightarrow> response"

type_synonym 'a run = "history \<Rightarrow> ((exn + 'a) \<times> history) option"

definition request :: "env \<Rightarrow> call \<Rightarrow> history \<Rightarrow> response \<times> history" where
  "request env c h = (env h c, h @ [(c, env h c)])"

fun isFailed :: "response \<Rightarrow> bool" where
  "isFailed (Failed m) = True"
| "isFailed _ = False"

text \<open>\<^verbatim>\<open>await\<close> of a call outside any \<^verbatim>\<open>try\<close>: a failure is thrown.\<close>

definition await :: "env \<Rightarrow> call \<Rightarrow> response run" where
  "await env c h =
     (case request env c h of
        (Failed m, h') \<Rightarrow> Some (Inl (Error m), h')
      | (r, h') \<Rightarrow> Some (Inr r, h'))"

definition ret :: "'a \<Rightarrow> 'a run" where
  "ret a h = Some (Inr a, h)"

definition raise :: "exn \<Rightarrow> 'a run" where
  "raise e h = Some (Inl e, h)"

text \<open>Sequencing: a thrown error and a run that never ends both skip what follows.\<close>

definition andThen :: "'a run \<Rightarrow> ('a \<Rightarrow> 'b run) \<Rightarrow> 'b run" where
  "andThen m f h =
     (case m h of
        None \<Rightarrow> None
      | Some (Inl e, h') \<Rightarrow> Some (Inl e, h')
      | Some (Inr a, h') \<Rightarrow> f a h')"

text \<open>
  The cache file holds what the last successful write put there, and nothing after a
  successful delete. \<^verbatim>\<open>JSON.parse\<close> of \<^verbatim>\<open>JSON.stringify\<close> gives a JSON value back as it
  was, so the file content is kept as the value itself.
\<close>

definition cacheStep :: "call \<times> response \<Rightarrow> json option \<Rightarrow> json option" where
  "cacheStep ev content =
     (case ev of
        (WriteCache d, r) \<Rightarrow> (if isFailed r then content else Some d)
      | (DeleteCache, r) \<Rightarrow> (if isFailed r then content else None)
      | _ \<Rightarrow> content)"

definition cacheFile :: "history \<Rightarrow> json option" where
  "cacheFile h = fold cacheStep h None"

section \<open>Paginator\<close>

text \<open>
  The four \<^verbatim>\<open>fetchAll...\<close> functions are one \<^verbatim>\<open>while (hasMore)\<close> loop, with their own
  listing call, page size and key property (\<^verbatim>\<open>$id\<close> or \<^verbatim>\<open>key\<close>). One round of the loop:
  the request (the cursor is added only when \<^verbatim>\<open>lastId\<close> is truthy), the page pushed onto
  the result, then either the end (a page shorter than the limit) or the new \<^verbatim>\<open>lastId\<close>,
  read from the last item of the page. A failed request is thrown to the caller. An answer
  without the array, and the last item of an empty page, are the \<^verbatim>\<open>TypeError\<close>s that
  JavaScript raises there. The loop need not end, so it is a partial function.
\<close>

partial_function (option) fetchLoop ::
  "env \<Rightarrow> (nat \<Rightarrow> jsval \<Rightarrow> call) \<Rightarrow> string \<Rightarrow> nat \<Rightarrow> obj list \<Rightarrow> jsval \<Rightarrow> history
     \<Rightarrow> ((exn + obj list) \<times> history) option" where
  "fetchLoop env list keyName limit items lastId h =
     (case request env (list limit (if truthy lastId then lastId else None)) h of
        (Failed m, h') \<Rightarrow> Some (Inl (Error m), h')
      | (Done, h') \<Rightarrow> Some (Inl (Error ''response items are not iterable''), h')
      | (Listed page, h') \<Rightarrow>
          (if length page < limit then Some (Inr (items @ page), h')
           else if page = [] then
             Some (Inl (Error ''Cannot read properties of undefined''), h')
           else fetchLoop env list keyName limit (items @ page) (field keyName (last page)) h'))"

declare fetchLoop.simps [code]

definition fetchAllAttributes :: "env \<Rightarrow> string \<Rightarrow> jsval \<Rightarrow> (obj list) run" where
  "fetchAllAttributes env databaseId collectionId =
     fetchLoop env (ListAttributes databaseId collectionId) ''key'' 100 [] None"

definition fetchAllIndexes :: "env \<Rightarrow> string \<Rightarrow> jsval \<Rightarrow> (obj list) run" where
  "fetchAllIndexes env databaseId collectionId =
     fetchLoop env (ListIndexes databaseId collectionId) ''key'' 100 [] None"

definition fetchAllCollections :: "env \<Rightarrow> string \<Rightarrow> (obj list) run" where
  "fetchAllCollections env databaseId =
     fetchLoop env (ListCollections databaseId) ''$id'' 100 [] None"

text \<open>\<^verbatim>\<open>config.batchSize\<close> is the parameter \<open>batchSize\<close>.\<close>

definition fetchAllDocuments :: "env \<Rightarrow> nat \<Rightarrow> string \<Rightarrow> jsval \<Rightarrow> (obj list) run" where
  "fetchAllDocuments env batchSize databaseId collectionId =
     fetchLoop env (ListDocuments databaseId collectionId) ''$id'' batchSize [] None"

section \<open>Schema replicator\<close>

text \<open>
  \<^verbatim>\<open>a === b\<close> on two property values. Two objects (or arrays) met here never are the same
  reference: they come out of different responses.
\<close>

fun strictEquals :: "jsval \<Rightarrow> jsval \<Rightarrow> bool" where
  "strictEquals (Some (JObj x)) b = False"
| "strictEquals (Some (JArr x)) b = False"
| "strictEquals a b = (a = b)"

text \<open>\<^verbatim>\<open>attribute && attribute.status === 'available'\<close> on the result of \<^verbatim>\<open>find\<close>.\<close>

definition isAvailable :: "obj option \<Rightarrow> bool" where
  "isAvailable found =
     (case found of None \<Rightarrow> False | Some a \<Rightarrow> field ''status'' a = Some (JStr ''available''))"

text \<open>The timer: \<^verbatim>\<open>await new Promise(resolve => setTimeout(resolve, ms))\<close>.\<close>

definition sleep :: "env \<Rightarrow> nat \<Rightarrow> unit run" where
  "sleep env ms h = Some (Inr (), snd (request env (Sleep ms) h))"

text \<open>
  \<^verbatim>\<open>waitForAttribute\<close> and \<^verbatim>\<open>waitForIndex\<close>: the \<^verbatim>\<open>for\<close> loop, by the number of attempts
  that are left (\<^verbatim>\<open>maxRetries - i\<close>).
\<close>

fun waitForAttribute :: "env \<Rightarrow> string \<Rightarrow> jsval \<Rightarrow> jsval \<Rightarrow> nat \<Rightarrow> bool run" where
  "waitForAttribute env databaseId collectionId attributeKey 0 = ret False"
| "waitForAttribute env databaseId collectionId attributeKey (Suc left) =
     andThen (fetchAllAttributes env databaseId collectionId) (\<lambda>attributes.
       if isAvailable (find (\<lambda>a. strictEquals (field ''key'' a) attributeKey) attributes)
       then ret True
       else andThen (sleep env 1000) (\<lambda>_.
              waitForAttribute env databaseId collectionId attributeKey left))"

fun waitForIndex :: "env \<Rightarrow> string \<Rightarrow> jsval \<Rightarrow> jsval \<Rightarrow> nat \<Rightarrow> bool run" where
  "waitForIndex env databaseId collectionId indexKey 0 = ret False"
| "waitForIndex env databaseId collectionId indexKey (Suc left) =
     andThen (fetchAllIndexes env databaseId collectionId) (\<lambda>indexes.
       if isAvailable (find (\<lambda>idx. strictEquals (field ''key'' idx) indexKey) indexes)
       then ret True
       else andThen (sleep env 1000) (\<lambda>_.
              waitForIndex env databaseId collectionId indexKey left))"

text \<open>\<^verbatim>\<open>a || b\<close> with a constant \<open>b\<close>.\<close>

definition orElse :: "jsval \<Rightarrow> json \<Rightarrow> jsval" where
  "orElse a b = (if truthy a then a else Some b)"

text \<open>
  The \<^verbatim>\<open>switch (type)\<close> of \<^verbatim>\<open>createAttribute\<close>: the SDK function and its arguments after
  \<^verbatim>\<open>databaseId\<close> and \<^verbatim>\<open>collectionId\<close>, or nothing for the \<^verbatim>\<open>default\<close> branch.
\<close>

definition createAttributeCall :: "obj \<Rightarrow> (string \<times> jsval list) option" where
  "createAttributeCall attribute =
     (let key = field ''key'' attribute;
          required = orElse (field ''required'' attribute) (JBool False);
          array = orElse (field ''array'' attribute) (JBool False);
          xdefault = field ''xdefault'' attribute
      in case field ''type'' attribute of
           Some (JStr t) \<Rightarrow>
             if t = ''string'' then
               Some (''createStringAttribute'',
                     [key, orElse (field ''size'' attribute) (JNum 255), required, xdefault, array])
             else if t = ''integer'' then
               Some (''createIntegerAttribute'',
                     [key, required, field ''min'' attribute, field ''max'' attribute, xdefault, array])
             else if t = ''float'' \<or> t = ''double'' then
               Some (''createFloatAttribute'',
                     [key, required, field ''min'' attribute, field ''max'' attribute, xdefault, array])
             else if t = ''boolean'' then
               Some (''createBooleanAttribute'', [key, required, xdefault, array])
             else if t = ''datetime'' then
               Some (''createDatetimeAttribute'', [key, required, xdefault, array])
             else if t = ''email'' then
               Some (''createEmailAttribute'', [key, required, xdefault, array])
             else if t = ''ip'' then
               Some (''createIpAttribute'', [key, required, xdefault, array])
             else if t = ''url'' then
               Some (''createUrlAttribute'', [key, required, xdefault, array])
             else if t = ''enum'' then
               Some (''createEnumAttribute'',
                     [key, orElse (field ''elements'' attribute) (JArr []), required, xdefault, array])
             else if t = ''relationship'' then
               Some (''createRelationshipAttribute'',
                     [field ''relatedCollection'' attribute, field ''relationType'' attribute,
                      orElse (field ''twoWay'' attribute) (JBool False), key,
                      field ''twoWayKey'' attribute,
                      orElse (field ''onDelete'' attribute) (JStr ''restrict'')])
             else None
         | _ \<Rightarrow> None)"

text \<open>The result objects \<^verbatim>\<open>{ success, error }\<close> and \<^verbatim>\<open>{ successCount, errorCount, errors }\<close>.\<close>

record op_result =
  success :: bool
  error :: "string option"

record batch_result =
  successCount :: nat
  errorCount :: nat
  errors :: "(jsval \<times> string option) list"

text \<open>Decimal digits of a number, and \<^verbatim>\<open>${x}\<close> in a template string.\<close>

fun natToString :: "nat \<Rightarrow> string" where
  "natToString n =
     (if n < 10 then [char_of (48 + n)] else natToString (n div 10) @ [char_of (48 + n mod 10)])"

declare natToString.simps [simp del]

fun joinComma :: "string list \<Rightarrow> string" where
  "joinComma [] = []"
| "joinComma [x] = x"
| "joinComma (x # y # rest) = x @ '','' @ joinComma (y # rest)"

fun textOf :: "json \<Rightarrow> string" where
  "textOf JNull = ''null''"
| "textOf (JBool b) = (if b then ''true'' else ''false'')"
| "textOf (JNum n) = (if n < 0 then ''-'' @ natToString (nat (- n)) else natToString (nat n))"
| "textOf (JStr s) = s"
| "textOf (JArr xs) = joinComma (map (\<lambda>x. if x = JNull then [] else textOf x) xs)"
| "textOf (JObj ob) = ''[object Object]''"

definition templateText :: "jsval \<Rightarrow> string" where
  "templateText v = (case v of None \<Rightarrow> ''undefined'' | Some x \<Rightarrow> textOf x)"

text \<open>The message \<^verbatim>\<open>`Unknown type: ${type}`\<close>.\<close>

definition unknownTypeMessage :: "jsval \<Rightarrow> string" where
  "unknownTypeMessage t = ''Unknown type: '' @ templateText t"

text \<open>
  \<^verbatim>\<open>createAttribute\<close>: the \<^verbatim>\<open>try\<close> turns a failed call into a result, so nothing is thrown
  and the function always returns.
\<close>

definition createAttribute :: "env \<Rightarrow> string \<Rightarrow> jsval \<Rightarrow> obj \<Rightarrow> history \<Rightarrow> op_result \<times> history" where
  "createAttribute env databaseId collectionId attribute h =
     (case createAttributeCall attribute of
        None \<Rightarrow>
          (\<lparr>success = False, error = Some (unknownTypeMessage (field ''type'' attribute))\<rparr>, h)
      | Some (sdkMethod, args) \<Rightarrow>
          (case request env (CreateAttribute sdkMethod databaseId collectionId args) h of
             (Failed m, h') \<Rightarrow> (\<lparr>success = False, error = Some m\<rparr>, h')
           | (_, h') \<Rightarrow> (\<lparr>success = True, error = None\<rparr>, h')))"

text \<open>The test that \<^verbatim>\<open>createAttributes\<close> makes before it skips an attribute.\<close>

definition isChildRelationship :: "obj \<Rightarrow> bool" where
  "isChildRelationship attribute =
     (field ''type'' attribute = Some (JStr ''relationship'') \<and>
      field ''side'' attribute = Some (JStr ''child''))"

text \<open>
  \<^verbatim>\<open>createAttributes\<close>: the \<^verbatim>\<open>for ... of\<close> loop with its three accumulators. The result of
  \<^verbatim>\<open>waitForAttribute\<close> is not looked at.
\<close>

fun createAttributesLoop ::
  "env \<Rightarrow> string \<Rightarrow> jsval \<Rightarrow> obj list \<Rightarrow> batch_result \<Rightarrow> batch_result run" where
  "createAttributesLoop env databaseId collectionId [] acc = ret acc"
| "createAttributesLoop env databaseId collectionId (attribute # rest) acc =
     (if isChildRelationship attribute then
        createAttributesLoop env databaseId collectionId rest acc
      else (\<lambda>h.
        case createAttribute env databaseId collectionId attribute h of
          (result, h') \<Rightarrow>
            if success result then
              andThen (waitForAttribute env databaseId collectionId (field ''key'' attribute) 30)
                (\<lambda>_. createAttributesLoop env databaseId collectionId rest
                        (acc\<lparr>successCount := successCount acc + 1\<rparr>)) h'
            else
              createAttributesLoop env databaseId collectionId rest
                (acc\<lparr>errorCount := errorCount acc + 1,
                     errors := errors acc @ [(field ''key'' attribute, error result)]\<rparr>) h'))"

definition createAttributes :: "env \<Rightarrow> string \<Rightarrow> jsval \<Rightarrow> obj list \<Rightarrow> batch_result run" where
  "createAttributes env databaseId collectionId attributes =
     createAttributesLoop env databaseId collectionId attributes
       \<lparr>successCount = 0, errorCount = 0, errors = []\<rparr>"

definition createIndex :: "env \<Rightarrow> string \<Rightarrow> jsval \<Rightarrow> obj \<Rightarrow> history \<Rightarrow> op_result \<times> history" where
  "createIndex env databaseId collectionId index h =
     (case request env
             (CreateIndex databaseId collectionId (field ''key'' index) (field ''type'' index)
                (field ''attributes'' index) (orElse (field ''orders'' index) (JArr []))) h of
        (Failed m, h') \<Rightarrow> (\<lparr>success = False, error = Some m\<rparr>, h')
      | (_, h') \<Rightarrow> (\<lparr>success = True, error = None\<rparr>, h'))"

fun createIndexesLoop ::
  "env \<Rightarrow> string \<Rightarrow> jsval \<Rightarrow> obj list \<Rightarrow> batch_result \<Rightarrow> batch_result run" where
  "createIndexesLoop env databaseId collectionId [] acc = ret acc"
| "createIndexesLoop env databaseId collectionId (index # rest) acc =
     (\<lambda>h.
        case createIndex env databaseId collectionId index h of
          (result, h') \<Rightarrow>
            if success result then
              andThen (waitForIndex env databaseId collectionId (field ''key'' index) 60)
                (\<lambda>_. createIndexesLoop env databaseId collectionId rest
                        (acc\<lparr>successCount := successCount acc + 1\<rparr>)) h'
            else
              createIndexesLoop env databaseId collectionId rest
                (acc\<lparr>errorCount := errorCount acc + 1,
                     errors := errors acc @ [(field ''key'' index, error result)]\<rparr>) h')"

definition createIndexes :: "env \<Rightarrow> string \<Rightarrow> jsval \<Rightarrow> obj list \<Rightarrow> batch_result run" where
  "createIndexes env databaseId collectionId indexes =
     createIndexesLoop env databaseId collectionId indexes
       \<lparr>successCount = 0, errorCount = 0, errors = []\<rparr>"

text \<open>The result object of \<^verbatim>\<open>cloneCollectionStructure\<close>.\<close>

record clone_result = op_result +
  attributeErrors :: "(jsval \<times> string option) list"
  indexErrors :: "(jsval \<times> string option) list"

definition emptyBatch :: batch_result where
  "emptyBatch = \<lparr>successCount = 0, errorCount = 0, errors = []\<rparr>"

text \<open>
  The \<^verbatim>\<open>catch\<close> block of \<^verbatim>\<open>cloneCollectionStructure\<close>, with the values that \<^verbatim>\<open>attrResult\<close>
  and \<^verbatim>\<open>idxResult\<close> have when the error is thrown.
\<close>

definition caught :: "exn \<Rightarrow> batch_result \<Rightarrow> batch_result \<Rightarrow> clone_result" where
  "caught e attrResult idxResult =
     \<lparr>success = False, error = Some (message e),
      attributeErrors = errors attrResult, indexErrors = errors idxResult\<rparr>"

text \<open>
  \<^verbatim>\<open>cloneCollectionStructure\<close>. Everything is inside the \<^verbatim>\<open>try\<close>, so the function throws
  nothing: it returns a result or runs forever. \<^verbatim>\<open>attrResult\<close> and \<^verbatim>\<open>idxResult\<close> are
  assigned only when \<^verbatim>\<open>createAttributes\<close> and \<^verbatim>\<open>createIndexes\<close> return.
\<close>

definition cloneCollectionStructure ::
  "env \<Rightarrow> string \<Rightarrow> string \<Rightarrow> obj \<Rightarrow> history \<Rightarrow> (clone_result \<times> history) option" where
  "cloneCollectionStructure env sourceDbId destDbId collection h =
     (let cid = field ''$id'' collection in
      case request env
             (CreateCollection destDbId cid (field ''name'' collection)
                (field ''$permissions'' collection) (field ''documentSecurity'' collection)
                (field ''enabled'' collection)) h of
        (Failed m, h1) \<Rightarrow> Some (caught (Error m) emptyBatch emptyBatch, h1)
      | (_, h1) \<Rightarrow>
         (case fetchAllAttributes env sourceDbId cid h1 of
            None \<Rightarrow> None
          | Some (Inl e, h2) \<Rightarrow> Some (caught e emptyBatch emptyBatch, h2)
          | Some (Inr attributes, h2) \<Rightarrow>
             (case (if attributes \<noteq> [] then createAttributes env destDbId cid attributes h2
                    else Some (Inr emptyBatch, h2)) of
                None \<Rightarrow> None
              | Some (Inl e, h3) \<Rightarrow> Some (caught e emptyBatch emptyBatch, h3)
              | Some (Inr attrResult, h3) \<Rightarrow>
                 (case fetchAllIndexes env sourceDbId cid h3 of
                    None \<Rightarrow> None
                  | Some (Inl e, h4) \<Rightarrow> Some (caught e attrResult emptyBatch, h4)
                  | Some (Inr indexes, h4) \<Rightarrow>
                     (case (if indexes \<noteq> [] then createIndexes env destDbId cid indexes h4
                            else Some (Inr emptyBatch, h4)) of
                        None \<Rightarrow> None
                      | Some (Inl e, h5) \<Rightarrow> Some (caught e attrResult emptyBatch, h5)
                      | Some (Inr idxResult, h5) \<Rightarrow>
                          (if errorCount attrResult > 0 then
                             Some (\<lparr>success = False,
                                    error = Some (natToString (errorCount attrResult)
                                                  @ '' attribute(s) failed to create''),
                                    attributeErrors = errors attrResult,
                                    indexErrors = errors idxResult\<rparr>, h5)
                           else
                             Some (\<lparr>success = True, error = None, attributeErrors = [],
                                    indexErrors = errors idxResult\<rparr>, h5)))))))"

section \<open>Diff engine\<close>

text \<open>
  \<^verbatim>\<open>getUniqueIdentifierField\<close>: the lookup \<^verbatim>\<open>identifierMap[collectionId] || null\<close>. The key
  of a property lookup is the string the value converts to. (A collection id that names a
  member of \<^verbatim>\<open>Object.prototype\<close> would find that member; no document has a field of its
  name, so the program goes on as it does for \<open>None\<close>.)
\<close>

definition getUniqueIdentifierField :: "jsval \<Rightarrow> string option" where
  "getUniqueIdentifierField collectionId =
     (let k = templateText collectionId in
      if k = ''packaging_records'' then Some ''waybill_number''
      else if k = ''packaging_items'' then Some ''packaging_record_id''
      else None)"

text \<open>
  A JavaScript \<^verbatim>\<open>Set\<close> of property values, in insertion order. \<^verbatim>\<open>has\<close> and \<^verbatim>\<open>add\<close>
  compare as \<^verbatim>\<open>===\<close> does (a JSON number is never \<^verbatim>\<open>NaN\<close>).
\<close>

definition setHas :: "jsval list \<Rightarrow> jsval \<Rightarrow> bool" where
  "setHas s v = (\<exists>e \<in> set s. strictEquals e v)"

definition setAdd :: "jsval list \<Rightarrow> jsval \<Rightarrow> jsval list" where
  "setAdd s v = (if setHas s v then s else s @ [v])"

text \<open>\<^verbatim>\<open>identifierField && doc[identifierField]\<close>.\<close>

definition identifierOf :: "string option \<Rightarrow> obj \<Rightarrow> jsval" where
  "identifierOf identifierField doc =
     (case identifierField of None \<Rightarrow> Some JNull | Some f \<Rightarrow> field f doc)"

text \<open>
  The \<^verbatim>\<open>for\<close> loop of \<^verbatim>\<open>buildExistingRecordSet\<close>. \<^verbatim>\<open>JSON.stringify\<close> is the parameter
  \<open>stringify\<close>.
\<close>

fun buildExistingRecordSetLoop ::
  "(json \<Rightarrow> string) \<Rightarrow> string option \<Rightarrow> obj list \<Rightarrow> jsval list \<Rightarrow> jsval list" where
  "buildExistingRecordSetLoop stringify identifierField [] existingSet = existingSet"
| "buildExistingRecordSetLoop stringify identifierField (doc # rest) existingSet =
     (if truthy (identifierOf identifierField doc) then
        buildExistingRecordSetLoop stringify identifierField rest
          (setAdd existingSet (identifierOf identifierField doc))
      else
        buildExistingRecordSetLoop stringify identifierField rest
          (setAdd existingSet (Some (JStr (stringify (JObj (cleanDocumentData doc)))))))"

definition buildExistingRecordSet ::
  "env \<Rightarrow> (json \<Rightarrow> string) \<Rightarrow> nat \<Rightarrow> string \<Rightarrow> jsval \<Rightarrow> (jsval list \<times> string option) run" where
  "buildExistingRecordSet env stringify batchSize destDbId collectionId =
     andThen (fetchAllDocuments env batchSize destDbId collectionId) (\<lambda>existingDocs.
       let identifierField = getUniqueIdentifierField collectionId in
       ret (buildExistingRecordSetLoop stringify identifierField existingDocs [], identifierField))"

definition isDocumentMissing ::
  "(json \<Rightarrow> string) \<Rightarrow> obj \<Rightarrow> jsval list \<Rightarrow> string option \<Rightarrow> bool" where
  "isDocumentMissing stringify document existingSet identifierField =
     (if truthy (identifierOf identifierField document) then
        \<not> setHas existingSet (identifierOf identifierField document)
      else
        \<not> setHas existingSet (Some (JStr (stringify (JObj (cleanDocumentData document))))))"

section \<open>Orchestrator\<close>

text \<open>
  The options and the \<^verbatim>\<open>results\<close> object of \<^verbatim>\<open>cloneDatabase\<close>
  (\<^verbatim>\<open>results.collections\<close> and \<^verbatim>\<open>results.documents\<close>, with their counters and lists).
\<close>

record clone_options =
  cloneStructure :: bool
  cloneData :: bool
  missingOnly :: bool

record collection_totals =
  collectionsSuccess :: nat
  collectionsFailed :: nat
  collectionErrors :: "(jsval \<times> string option) list"
  collectionAttributeErrors :: "(jsval \<times> (jsval \<times> string option) list) list"

record document_totals =
  documentsSuccess :: nat
  documentsFailed :: nat
  documentsSkipped :: nat
  documentErrors :: "(jsval \<times> (jsval \<times> string) list) list"

record clone_results =
  collectionResults :: collection_totals
  documentResults :: document_totals

definition noCollections :: collection_totals where
  "noCollections =
     \<lparr>collectionsSuccess = 0, collectionsFailed = 0, collectionErrors = [],
      collectionAttributeErrors = []\<rparr>"

definition noDocuments :: document_totals where
  "noDocuments =
     \<lparr>documentsSuccess = 0, documentsFailed = 0, documentsSkipped = 0, documentErrors = []\<rparr>"

text \<open>
  \<^verbatim>\<open>name.substring(0, 20)\<close> in the progress-bar updates: a \<^verbatim>\<open>TypeError\<close> unless the name
  is a string. Nothing else of the progress bars is part of the model.
\<close>

definition substringOf :: "jsval \<Rightarrow> unit run" where
  "substringOf name =
     (case name of Some (JStr s) \<Rightarrow> ret ()
                 | _ \<Rightarrow> raise (Error ''Cannot read properties (reading substring)''))"

text \<open>The loop over the collections under \<^verbatim>\<open>if (cloneStructure)\<close>.\<close>

fun cloneStructures ::
  "env \<Rightarrow> string \<Rightarrow> string \<Rightarrow> obj list \<Rightarrow> collection_totals \<Rightarrow> collection_totals run" where
  "cloneStructures env sourceDbId destDbId [] totals = ret totals"
| "cloneStructures env sourceDbId destDbId (collection # rest) totals =
     andThen (substringOf (field ''name'' collection)) (\<lambda>_ h.
       case cloneCollectionStructure env sourceDbId destDbId collection h of
         None \<Rightarrow> None
       | Some (result, h') \<Rightarrow>
           if success result then
             cloneStructures env sourceDbId destDbId rest
               (totals\<lparr>collectionsSuccess := collectionsSuccess totals + 1\<rparr>) h'
           else
             cloneStructures env sourceDbId destDbId rest
               (totals\<lparr>collectionsFailed := collectionsFailed totals + 1,
                       collectionErrors :=
                         collectionErrors totals @ [(field ''name'' collection, error result)],
                       collectionAttributeErrors :=
                         (if attributeErrors result \<noteq> [] then
                            collectionAttributeErrors totals
                              @ [(field ''name'' collection, attributeErrors result)]
                          else collectionAttributeErrors totals)\<rparr>) h')"

text \<open>
  Step 1: the documents of every source collection, as the entries
  \<^verbatim>\<open>{ collectionId, collectionName, documents }\<close> of \<^verbatim>\<open>collectionDocs\<close>.
\<close>

type_synonym collection_docs = "jsval \<times> jsval \<times> obj list"

fun fetchCollectionDocs ::
  "env \<Rightarrow> nat \<Rightarrow> string \<Rightarrow> obj list \<Rightarrow> collection_docs list \<Rightarrow> (collection_docs list) run" where
  "fetchCollectionDocs env batchSize sourceDbId [] collectionDocs = ret collectionDocs"
| "fetchCollectionDocs env batchSize sourceDbId (collection # rest) collectionDocs =
     andThen (fetchAllDocuments env batchSize sourceDbId (field ''$id'' collection)) (\<lambda>docs.
       fetchCollectionDocs env batchSize sourceDbId rest
         (collectionDocs @ [(field ''$id'' collection, field ''name'' collection, docs)]))"

text \<open>
  An object literal as it is in the file: \<^verbatim>\<open>JSON.stringify\<close> leaves out a property whose
  value is \<^verbatim>\<open>undefined\<close>.
\<close>

definition jsonObject :: "(string \<times> jsval) list \<Rightarrow> json" where
  "jsonObject props = JObj (concat (map (\<lambda>(k, v). case v of None \<Rightarrow> [] | Some x \<Rightarrow> [(k, x)]) props))"

text \<open>
  \<^verbatim>\<open>cacheData\<close>, as \<^verbatim>\<open>writeCacheFile\<close> writes it. The property names are the names of the
  variables \<^verbatim>\<open>sourceDbId\<close> and \<^verbatim>\<open>destDbId\<close> (shorthand properties).
  \<^verbatim>\<open>new Date().toISOString()\<close> is the parameter \<open>fetchedAt\<close>.
\<close>

definition cacheEntry :: "collection_docs \<Rightarrow> json" where
  "cacheEntry cd =
     (case cd of (collectionId, collectionName, docs) \<Rightarrow>
        jsonObject
          [(''collectionId'', collectionId),
           (''collectionName'', collectionName),
           (''documentCount'', Some (JNum (int (length docs)))),
           (''documents'', Some (JArr (map JObj docs)))])"

definition cacheData :: "string \<Rightarrow> string \<Rightarrow> string \<Rightarrow> collection_docs list \<Rightarrow> json" where
  "cacheData sourceDbId destDbId fetchedAt collectionDocs =
     JObj [(''sourceDbId'', JStr sourceDbId),
           (''destDbId'', JStr destDbId),
           (''fetchedAt'', JStr fetchedAt),
           (''collections'', JArr (map cacheEntry collectionDocs))]"

definition writeCacheFile :: "env \<Rightarrow> json \<Rightarrow> unit run" where
  "writeCacheFile env data = andThen (await env (WriteCache data)) (\<lambda>_. ret ())"

definition readCacheFile :: "env \<Rightarrow> json run" where
  "readCacheFile env =
     andThen (await env ReadCache) (\<lambda>_ h.
       case cacheFile h of
         None \<Rightarrow> raise (Error ''ENOENT: no such file or directory'') h
       | Some data \<Rightarrow> ret data h)"

definition deleteCacheFile :: "env \<Rightarrow> unit run" where
  "deleteCacheFile env h =
     (if cacheFile h \<noteq> None then andThen (await env DeleteCache) (\<lambda>_. ret ()) h
      else ret () h)"

text \<open>
  What the program reads of \<^verbatim>\<open>cachedData\<close>: \<^verbatim>\<open>collections\<close>, and of each entry
  \<^verbatim>\<open>collectionId\<close>, \<^verbatim>\<open>collectionName\<close> and the \<^verbatim>\<open>documents\<close>. Where the value has another
  shape, JavaScript raises a \<^verbatim>\<open>TypeError\<close>.
\<close>

fun asObject :: "json \<Rightarrow> obj option" where
  "asObject (JObj ob) = Some ob"
| "asObject _ = None"

fun cachedEntry :: "json \<Rightarrow> collection_docs option" where
  "cachedEntry (JObj e) =
     (case field ''documents'' e of
        Some (JArr ds) \<Rightarrow>
          (case those (map asObject ds) of
             Some docs \<Rightarrow> Some (field ''collectionId'' e, field ''collectionName'' e, docs)
           | None \<Rightarrow> None)
      | _ \<Rightarrow> None)"
| "cachedEntry _ = None"

fun cachedCollections :: "json \<Rightarrow> (collection_docs list) option" where
  "cachedCollections (JObj whole) =
     (case field ''collections'' whole of
        Some (JArr entries) \<Rightarrow> those (map cachedEntry entries)
      | _ \<Rightarrow> None)"
| "cachedCollections _ = None"

text \<open>
  The loop that fills \<^verbatim>\<open>processQueue\<close>, with \<^verbatim>\<open>docsToProcess\<close> and
  \<^verbatim>\<open>results.documents.skipped\<close>.
\<close>

fun buildQueue ::
  "env \<Rightarrow> (json \<Rightarrow> string) \<Rightarrow> nat \<Rightarrow> string \<Rightarrow> bool \<Rightarrow> collection_docs list
     \<Rightarrow> collection_docs list \<times> nat \<times> nat \<Rightarrow> (collection_docs list \<times> nat \<times> nat) run" where
  "buildQueue env stringify batchSize destDbId missing [] acc = ret acc"
| "buildQueue env stringify batchSize destDbId missing ((cid, cname, docs) # rest)
     (processQueue, docsToProcess, skipped) =
     (if missing then
        andThen (buildExistingRecordSet env stringify batchSize destDbId cid)
          (\<lambda>(existingSet, identifierField).
             let missingDocs =
                   filter (\<lambda>doc. isDocumentMissing stringify doc existingSet identifierField) docs
             in buildQueue env stringify batchSize destDbId missing rest
                  (processQueue @ [(cid, cname, missingDocs)],
                   docsToProcess + length missingDocs,
                   skipped + (length docs - length missingDocs)))
      else
        buildQueue env stringify batchSize destDbId missing rest
          (processQueue @ [(cid, cname, docs)], docsToProcess + length docs, skipped))"

text \<open>
  The \<^verbatim>\<open>catch\<close> block of the insertion loop: the error goes to the group of its collection,
  which is made first when there is none. Reading \<^verbatim>\<open>errors\<close> of a group that \<^verbatim>\<open>find\<close> does
  not give is a \<^verbatim>\<open>TypeError\<close>.
\<close>

fun pushToGroup ::
  "jsval \<Rightarrow> jsval \<times> string \<Rightarrow> (jsval \<times> (jsval \<times> string) list) list
     \<Rightarrow> (jsval \<times> (jsval \<times> string) list) list option" where
  "pushToGroup name e [] = None"
| "pushToGroup name e ((n, es) # groups) =
     (if strictEquals n name then Some ((n, es @ [e]) # groups)
      else map_option (\<lambda>gs. (n, es) # gs) (pushToGroup name e groups))"

definition recordDocumentError ::
  "jsval \<Rightarrow> jsval \<times> string \<Rightarrow> document_totals \<Rightarrow> document_totals run" where
  "recordDocumentError collectionName e totals =
     (let groups = (if find (\<lambda>g. strictEquals (fst g) collectionName) (documentErrors totals) = None
                    then documentErrors totals @ [(collectionName, [])]
                    else documentErrors totals)
      in case pushToGroup collectionName e groups of
           None \<Rightarrow> raise (Error ''Cannot read properties of undefined (reading errors)'')
         | Some groups' \<Rightarrow>
             ret (totals\<lparr>documentsFailed := documentsFailed totals + 1,
                         documentErrors := groups'\<rparr>))"

text \<open>The loop over the documents of one queue entry.\<close>

fun insertDocuments ::
  "env \<Rightarrow> string \<Rightarrow> jsval \<Rightarrow> jsval \<Rightarrow> obj list \<Rightarrow> document_totals \<Rightarrow> document_totals run" where
  "insertDocuments env destDbId collectionId collectionName [] totals = ret totals"
| "insertDocuments env destDbId collectionId collectionName (document # rest) totals =
     (\<lambda>h. case request env (CreateDocument destDbId collectionId (cleanDocumentData document)) h of
        (Failed m, h') \<Rightarrow>
          andThen (recordDocumentError collectionName (field ''$id'' document, m) totals)
            (insertDocuments env destDbId collectionId collectionName rest) h'
      | (_, h') \<Rightarrow>
          insertDocuments env destDbId collectionId collectionName rest
            (totals\<lparr>documentsSuccess := documentsSuccess totals + 1\<rparr>) h')"

text \<open>The loop over \<^verbatim>\<open>processQueue\<close>.\<close>

fun insertQueue ::
  "env \<Rightarrow> string \<Rightarrow> collection_docs list \<Rightarrow> document_totals \<Rightarrow> document_totals run" where
  "insertQueue env destDbId [] totals = ret totals"
| "insertQueue env destDbId ((cid, cname, docs) # rest) totals =
     (if docs = [] then insertQueue env destDbId rest totals
      else andThen (substringOf cname) (\<lambda>_.
             andThen (insertDocuments env destDbId cid cname docs totals)
               (insertQueue env destDbId rest)))"

text \<open>
  The part of \<^verbatim>\<open>cloneDatabase\<close> under \<^verbatim>\<open>if (cloneData || missingOnly)\<close>: fetch, write the
  cache file, read it back, fill the queue, insert, delete the cache file.
\<close>

definition cloneDocuments ::
  "env \<Rightarrow> (json \<Rightarrow> string) \<Rightarrow> nat \<Rightarrow> string \<Rightarrow> string \<Rightarrow> string \<Rightarrow> bool \<Rightarrow> obj list
     \<Rightarrow> document_totals run" where
  "cloneDocuments env stringify batchSize fetchedAt sourceDbId destDbId missing collections =
     andThen (fetchCollectionDocs env batchSize sourceDbId collections []) (\<lambda>collectionDocs.
     andThen (writeCacheFile env (cacheData sourceDbId destDbId fetchedAt collectionDocs)) (\<lambda>_.
     andThen (readCacheFile env) (\<lambda>cachedData.
     andThen (case cachedCollections cachedData of
                None \<Rightarrow> raise (Error ''cachedData.collections is not iterable'')
              | Some entries \<Rightarrow>
                  buildQueue env stringify batchSize destDbId missing entries ([], 0, 0))
       (\<lambda>(processQueue, docsToProcess, skipped).
     andThen (if docsToProcess > 0 then
                insertQueue env destDbId processQueue (noDocuments\<lparr>documentsSkipped := skipped\<rparr>)
              else ret (noDocuments\<lparr>documentsSkipped := skipped\<rparr>)) (\<lambda>totals.
     andThen (deleteCacheFile env) (\<lambda>_. ret totals))))))"

definition cloneDatabase ::
  "env \<Rightarrow> (json \<Rightarrow> string) \<Rightarrow> nat \<Rightarrow> string \<Rightarrow> string \<Rightarrow> string \<Rightarrow> clone_options
     \<Rightarrow> clone_results run" where
  "cloneDatabase env stringify batchSize fetchedAt sourceDbId destDbId options =
     andThen (fetchAllCollections env sourceDbId) (\<lambda>collections.
       if collections = [] then ret \<lparr>collectionResults = noCollections, documentResults = noDocuments\<rparr>
       else
         andThen (if cloneStructure options then
                    cloneStructures env sourceDbId destDbId collections noCollections
                  else ret noCollections) (\<lambda>collectionTotals.
         andThen (if cloneData options \<or> missingOnly options then
                    cloneDocuments env stringify batchSize fetchedAt sourceDbId destDbId
                      (missingOnly options) collections
                  else ret noDocuments) (\<lambda>documentTotals.
         ret \<lparr>collectionResults = collectionTotals, documentResults = documentTotals\<rparr>)))"

section \<open>Two services to run the program against\<close>

text \<open>
  A service that keeps one list of items and serves it in stable forward-ordered pages:
  a listing request gets the first \<open>limit\<close> items after the item whose key is the cursor
  (from the start without a cursor), whatever was asked before. An unknown cursor is
  rejected. Every other call is acknowledged.
\<close>

definition pageAfter :: "string \<Rightarrow> obj list \<Rightarrow> nat \<Rightarrow> jsval \<Rightarrow> response" where
  "pageAfter keyName items limit cursor =
     (case cursor of
        None \<Rightarrow> Listed (take limit items)
      | Some c \<Rightarrow>
          (case dropWhile (\<lambda>x. field keyName x \<noteq> Some c) items of
             [] \<Rightarrow> Failed ''cursor not found''
           | x # rest \<Rightarrow> Listed (take limit rest)))"

definition stableListing :: "string \<Rightarrow> obj list \<Rightarrow> env" where
  "stableListing keyName items h c =
     (case c of
        ListCollections db limit cursor \<Rightarrow> pageAfter keyName items limit cursor
      | ListAttributes db coll limit cursor \<Rightarrow> pageAfter keyName items limit cursor
      | ListIndexes db coll limit cursor \<Rightarrow> pageAfter keyName items limit cursor
      | ListDocuments db coll limit cursor \<Rightarrow> pageAfter keyName items limit cursor
      | _ \<Rightarrow> Done)"

text \<open>The number of requests that the specification gives for \<open>n\<close> items in pages of \<open>p\<close>.\<close>

definition ceilDiv :: "nat \<Rightarrow> nat \<Rightarrow> nat" where
  "ceilDiv n p = (n + p - 1) div p"

fun isListing :: "call \<Rightarrow> bool" where
  "isListing (ListCollections db limit cursor) = True"
| "isListing (ListAttributes db coll limit cursor) = True"
| "isListing (ListIndexes db coll limit cursor) = True"
| "isListing (ListDocuments db coll limit cursor) = True"
| "isListing _ = False"

fun isSleep :: "call \<Rightarrow> bool" where
  "isSleep (Sleep ms) = True"
| "isSleep _ = False"

text \<open>
  A service whose schema objects become ready with time: the \<open>i\<close>-th listing request of
  the run (counted from 0) is answered with \<open>listing i\<close>; every other call is acknowledged.
\<close>

definition listingsSoFar :: "history \<Rightarrow> nat" where
  "listingsSoFar h = length (filter (\<lambda>(c, r). isListing c) h)"

definition scripted :: "(nat \<Rightarrow> obj list) \<Rightarrow> env" where
  "scripted listing h c = (if isListing c then Listed (listing (listingsSoFar h)) else Done)"



text \<open>
  A serializer to run the diff engine with: \<^verbatim>\<open>JSON.stringify\<close> on values whose strings
  need no escaping.
\<close>

definition quoted :: "string \<Rightarrow> string" where
  "quoted s = CHR 0x22 # s @ [CHR 0x22]"

function jsonText :: "json \<Rightarrow> string" where
  "jsonText JNull = ''null''"
| "jsonText (JBool b) = (if b then ''true'' else ''false'')"
| "jsonText (JNum n) = textOf (JNum n)"
| "jsonText (JStr s) = quoted s"
| "jsonText (JArr xs) = ''['' @ joinComma (map jsonText xs) @ '']''"
| "jsonText (JObj ob) =
     ''{'' @ joinComma (map (\<lambda>e. quoted (fst e) @ '':'' @ jsonText (snd e)) ob) @ ''}''"
  by pat_completeness auto
termination
proof (relation "measure size")
  show "wf (measure size)" by simp
next
  fix xs :: "json list" and x
  assume "x \<in> set xs"
  then have "size x \<le> size_list size xs" by (induction xs) auto
  then show "(x, JArr xs) \<in> measure size" by simp
next
  fix ob :: obj and e
  assume "e \<in> set ob"
  then have "(fst e, snd e) \<in> set ob" by simp
  from size_entry_less [OF this] show "(snd e, JObj ob) \<in> measure size" by simp
qed

section \<open>Reading the history of a run\<close>

text \<open>A computation whose calls all are of the given kind.\<close>

definition emitsOnly :: "'a run \<Rightarrow> (call \<Rightarrow> bool) \<Rightarrow> bool" where
  "emitsOnly m allowed =
     (\<forall>h r h'. m h = Some (r, h') \<longrightarrow> (\<exists>l. h' = h @ l \<and> (\<forall>(c, x) \<in> set l. allowed c)))"

fun isCreateAttribute :: "call \<Rightarrow> bool" where
  "isCreateAttribute (CreateAttribute sdkMethod db coll args) = True"
| "isCreateAttribute _ = False"

fun isCreateIndex :: "call \<Rightarrow> bool" where
  "isCreateIndex (CreateIndex db coll key t attrs orders) = True"
| "isCreateIndex _ = False"

fun isCreateDocument :: "call \<Rightarrow> bool" where
  "isCreateDocument (CreateDocument db coll data) = True"
| "isCreateDocument _ = False"

fun isListAttributes :: "call \<Rightarrow> bool" where
  "isListAttributes (ListAttributes db coll limit cursor) = True"
| "isListAttributes _ = False"

fun isListed :: "response \<Rightarrow> bool" where
  "isListed (Listed page) = True"
| "isListed _ = False"

text \<open>The attribute creation calls of a stretch of history, in the order they were made.\<close>

definition attributeSubmissions :: "history \<Rightarrow> call list" where
  "attributeSubmissions l = filter isCreateAttribute (map fst l)"

text \<open>
  The creation calls that a list of source attributes stands for: none for a child-side
  relationship attribute, none for an attribute whose type the \<^verbatim>\<open>switch\<close> does not
  know, and otherwise the call of its type, in the order of the list.
\<close>

definition expectedSubmissions :: "string \<Rightarrow> jsval \<Rightarrow> obj list \<Rightarrow> call list" where
  "expectedSubmissions databaseId collectionId attributes =
     List.map_filter
       (\<lambda>a. if isChildRelationship a then None
            else map_option (\<lambda>(sdkMethod, args). CreateAttribute sdkMethod databaseId collectionId args)
                   (createAttributeCall a))
       attributes"

text \<open>The attribute creation calls that failed, and the error entries of the failed index
  creation calls, of a stretch of history.\<close>

definition attributeFailures :: "history \<Rightarrow> history" where
  "attributeFailures l = filter (\<lambda>(c, r). isCreateAttribute c \<and> isFailed r) l"

fun indexError :: "call \<times> response \<Rightarrow> (jsval \<times> string option) list" where
  "indexError (CreateIndex db coll key t attrs orders, Failed m) = [(key, Some m)]"
| "indexError _ = []"

definition failedIndexErrors :: "history \<Rightarrow> (jsval \<times> string option) list" where
  "failedIndexErrors l = concat (map indexError l)"

text \<open>
  The eleven attribute types for which the \<^verbatim>\<open>switch\<close> of \<^verbatim>\<open>createAttribute\<close> has a
  \<^verbatim>\<open>case\<close>, and the SDK function that is called for each of them.
\<close>

definition knownTypes :: "string list" where
  "knownTypes =
     [''string'', ''integer'', ''float'', ''double'', ''boolean'', ''datetime'', ''email'',
      ''ip'', ''url'', ''enum'', ''relationship'']"

definition knownType :: "obj \<Rightarrow> bool" where
  "knownType a = (case field ''type'' a of Some (JStr t) \<Rightarrow> t \<in> set knownTypes | _ \<Rightarrow> False)"

definition creatorOf :: "jsval \<Rightarrow> string" where
  "creatorOf t =
     (if t = Some (JStr ''string'') then ''createStringAttribute''
      else if t = Some (JStr ''integer'') then ''createIntegerAttribute''
      else if t = Some (JStr ''float'') then ''createFloatAttribute''
      else if t = Some (JStr ''double'') then ''createFloatAttribute''
      else if t = Some (JStr ''boolean'') then ''createBooleanAttribute''
      else if t = Some (JStr ''datetime'') then ''createDatetimeAttribute''
      else if t = Some (JStr ''email'') then ''createEmailAttribute''
      else if t = Some (JStr ''ip'') then ''createIpAttribute''
      else if t = Some (JStr ''url'') then ''createUrlAttribute''
      else if t = Some (JStr ''enum'') then ''createEnumAttribute''
      else if t = Some (JStr ''relationship'') then ''createRelationshipAttribute''
      else [])"

fun sdkMethodOf :: "call \<Rightarrow> string" where
  "sdkMethodOf (CreateAttribute sdkMethod db coll args) = sdkMethod"
| "sdkMethodOf _ = []"

text \<open>
  The attributes for which a creation call is due: not a child-side relationship, and of
  one of the eleven types. An attribute that \<^verbatim>\<open>createAttributes\<close> passes without an error
  of its own making is one that it skips or one of a known type.
\<close>

definition submittable :: "obj \<Rightarrow> bool" where
  "submittable a = (\<not> isChildRelationship a \<and> knownType a)"


text \<open>
  A stretch of history in which nothing but index creation goes wrong: no call other than
  an index creation is answered with an error (the answer of the timer is not looked at),
  and every listing request gets a page.
\<close>

fun untroubled :: "call \<times> response \<Rightarrow> bool" where
  "untroubled (c, r) =
     ((isFailed r \<longrightarrow> isCreateIndex c \<or> isSleep c) \<and> (isListing c \<longrightarrow> isListed r))"

definition onlyIndexTrouble :: "history \<Rightarrow> bool" where
  "onlyIndexTrouble l = list_all untroubled l"

text \<open>
  The creation call that is due for an attribute: the creator of its type, with the
  arguments that \<^verbatim>\<open>createAttribute\<close> takes from the attribute.
\<close>

definition submission :: "string \<Rightarrow> jsval \<Rightarrow> obj \<Rightarrow> call" where
  "submission db coll a =
     CreateAttribute (creatorOf (field ''type'' a)) db coll
       (case createAttributeCall a of Some (sdkMethod, args) \<Rightarrow> args | None \<Rightarrow> [])"



text \<open>
  What a readiness poll looks for in a listing, and the polls and sleeps of a stretch of
  history.
\<close>

definition keyAvailable :: "jsval \<Rightarrow> obj list \<Rightarrow> bool" where
  "keyAvailable key items = isAvailable (find (\<lambda>a. strictEquals (field ''key'' a) key) items)"

definition sleepsIn :: "history \<Rightarrow> nat" where
  "sleepsIn l = length (filter (\<lambda>(c, r). isSleep c) l)"

text \<open>
  The history and the result of a poll of at most \<open>left\<close> attempts against the service
  \<open>scripted listing\<close>, when \<open>n\<close> listing requests have been made before it.
\<close>

fun pollLog :: "call \<Rightarrow> (nat \<Rightarrow> obj list) \<Rightarrow> jsval \<Rightarrow> nat \<Rightarrow> nat \<Rightarrow> history" where
  "pollLog c listing key n 0 = []"
| "pollLog c listing key n (Suc left) =
     (c, Listed (listing n)) #
       (if keyAvailable key (listing n) then []
        else (Sleep 1000, Done) # pollLog c listing key (Suc n) left)"

fun pollResult :: "(nat \<Rightarrow> obj list) \<Rightarrow> jsval \<Rightarrow> nat \<Rightarrow> nat \<Rightarrow> bool" where
  "pollResult listing key n 0 = False"
| "pollResult listing key n (Suc left) =
     (keyAvailable key (listing n) \<or> pollResult listing key (Suc n) left)"

text \<open>An attribute that is not skipped and whose type the \<^verbatim>\<open>switch\<close> does not know.\<close>

definition unknownType :: "obj \<Rightarrow> bool" where
  "unknownType a = (\<not> isChildRelationship a \<and> \<not> knownType a)"

text \<open>
  The calls of \<^verbatim>\<open>createAttributes\<close> and of \<^verbatim>\<open>createIndexes\<close> against the service
  \<open>scripted listing\<close>, when \<open>n\<close> listing requests have been made before: for every
  attribute that is submitted, the creation call and then a poll of at most 30 attempts;
  for every index, the creation call and then a poll of at most 60 attempts.
\<close>

fun attributesLog :: "(nat \<Rightarrow> obj list) \<Rightarrow> string \<Rightarrow> jsval \<Rightarrow> obj list \<Rightarrow> nat \<Rightarrow> history" where
  "attributesLog listing db coll [] n = []"
| "attributesLog listing db coll (a # rest) n =
     (if submittable a then
        (CreateAttribute (creatorOf (field ''type'' a)) db coll
           (case createAttributeCall a of Some (sdkMethod, args) \<Rightarrow> args | None \<Rightarrow> []), Done) #
        pollLog (ListAttributes db coll 100 None) listing (field ''key'' a) n 30 @
        attributesLog listing db coll rest
          (n + listingsSoFar
                 (pollLog (ListAttributes db coll 100 None) listing (field ''key'' a) n 30))
      else attributesLog listing db coll rest n)"

fun indexesLog :: "(nat \<Rightarrow> obj list) \<Rightarrow> string \<Rightarrow> jsval \<Rightarrow> obj list \<Rightarrow> nat \<Rightarrow> history" where
  "indexesLog listing db coll [] n = []"
| "indexesLog listing db coll (idx # rest) n =
     (CreateIndex db coll (field ''key'' idx) (field ''type'' idx) (field ''attributes'' idx)
        (orElse (field ''orders'' idx) (JArr [])), Done) #
     pollLog (ListIndexes db coll 100 None) listing (field ''key'' idx) n 60 @
     indexesLog listing db coll rest
       (n + listingsSoFar (pollLog (ListIndexes db coll 100 None) listing (field ''key'' idx) n 60))"

section \<open>Keys of the diff engine\<close>

text \<open>
  The key under which both \<^verbatim>\<open>buildExistingRecordSet\<close> and \<^verbatim>\<open>isDocumentMissing\<close> look at
  a document: the value of the identifier field when there is such a field and the value is
  truthy, and otherwise the serialization of the cleaned document.
\<close>

definition documentKey :: "(json \<Rightarrow> string) \<Rightarrow> string option \<Rightarrow> obj \<Rightarrow> jsval" where
  "documentKey stringify identifierField doc =
     (if truthy (identifierOf identifierField doc) then identifierOf identifierField doc
      else Some (JStr (stringify (JObj (cleanDocumentData doc)))))"

text \<open>An identifier value that is truthy and compared by value: a non-empty string, a
  non-zero number or \<^verbatim>\<open>true\<close>.\<close>

fun identifierValue :: "json \<Rightarrow> bool" where
  "identifierValue (JStr s) = (s \<noteq> [])"
| "identifierValue (JNum n) = (n \<noteq> 0)"
| "identifierValue (JBool b) = b"
| "identifierValue _ = False"

section \<open>The cache file in a run\<close>

text \<open>
  Where a run of \<^verbatim>\<open>cloneDatabase\<close> stands with respect to the cache file: it has not
  written it yet, it has written it and not deleted it, it has deleted it.
\<close>

datatype stage = Fetching | Snapshot | Deleted

fun isCreateCollection :: "call \<Rightarrow> bool" where
  "isCreateCollection (CreateCollection db coll name perms sec en) = True"
| "isCreateCollection _ = False"

text \<open>
  The calls of the first stage: listing requests, the calls that create the schema, and
  the sleeps of the readiness polls.
\<close>

definition schemaCall :: "call \<Rightarrow> bool" where
  "schemaCall c =
     (isListing c \<or> isSleep c \<or> isCreateCollection c \<or> isCreateAttribute c \<or> isCreateIndex c)"

text \<open>
  The calls between the write and the deletion of the cache file: the file is read, the
  destination documents are listed (when only missing documents are added), documents are
  created in the destination.
\<close>

fun snapshotCall :: "bool \<Rightarrow> string \<Rightarrow> call \<Rightarrow> bool" where
  "snapshotCall missing dest ReadCache = True"
| "snapshotCall missing dest (ListDocuments db coll limit cursor) = (missing \<and> db = dest)"
| "snapshotCall missing dest (CreateDocument db coll data) = (db = dest)"
| "snapshotCall missing dest _ = False"

text \<open>
  One call seen from a stage: \<open>None\<close> when the call is out of place there. A write of the
  cache file that succeeds leads from \<open>Fetching\<close> to \<open>Snapshot\<close>, a deletion that succeeds
  from \<open>Snapshot\<close> to \<open>Deleted\<close>, and after that no call is in place.
\<close>

fun stageStep :: "bool \<Rightarrow> string \<Rightarrow> stage \<Rightarrow> call \<times> response \<Rightarrow> stage option" where
  "stageStep missing dest Fetching (c, r) =
     (case c of
        WriteCache d \<Rightarrow> Some (if isFailed r then Fetching else Snapshot)
      | _ \<Rightarrow> (if schemaCall c then Some Fetching else None))"
| "stageStep missing dest Snapshot (c, r) =
     (case c of
        DeleteCache \<Rightarrow> Some (if isFailed r then Snapshot else Deleted)
      | _ \<Rightarrow> (if snapshotCall missing dest c then Some Snapshot else None))"
| "stageStep missing dest Deleted (c, r) = None"

fun stages :: "bool \<Rightarrow> string \<Rightarrow> stage \<Rightarrow> history \<Rightarrow> stage option" where
  "stages missing dest s [] = Some s"
| "stages missing dest s (ev # l) =
     (case stageStep missing dest s ev of
        None \<Rightarrow> None
      | Some s' \<Rightarrow> stages missing dest s' l)"

text \<open>The document creation calls of a stretch of history that were rejected.\<close>

definition failedWrites :: "history \<Rightarrow> nat" where
  "failedWrites l = length (filter (\<lambda>(c, r). isCreateDocument c \<and> isFailed r) l)"




fun isText :: "jsval \<Rightarrow> bool" where
  "isText (Some (JStr s)) = True"
| "isText _ = False"



text \<open>The contents that a stretch of history wrote to the cache file, failed writes too.\<close>

fun written :: "call \<times> response \<Rightarrow> json list" where
  "written (WriteCache d, r) = [d]"
| "written _ = []"

definition snapshotsWritten :: "history \<Rightarrow> json list" where
  "snapshotsWritten l = concat (map written l)"

text \<open>
  What the cache file holds for one source collection: an object with no other keys than
  the four, the id and the name of the collection where it has them, the documents that a
  fetch of the collection gave, and their number.
\<close>

definition entryKeys :: "string list" where
  "entryKeys = [''collectionId'', ''collectionName'', ''documentCount'', ''documents'']"

definition snapshotEntry :: "env \<Rightarrow> nat \<Rightarrow> string \<Rightarrow> obj \<Rightarrow> json \<Rightarrow> bool" where
  "snapshotEntry env batchSize sourceDbId collection entry =
     (\<exists>ob docs g g'.
        entry = JObj ob \<and> distinct (map fst ob) \<and> set (map fst ob) \<subseteq> set entryKeys \<and>
        fetchAllDocuments env batchSize sourceDbId (field ''$id'' collection) g = Some (Inr docs, g') \<and>
        field ''collectionId'' ob = field ''$id'' collection \<and>
        field ''collectionName'' ob = field ''name'' collection \<and>
        field ''documentCount'' ob = Some (JNum (int (length docs))) \<and>
        field ''documents'' ob = Some (JArr (map JObj docs)))"

text \<open>
  A service with one source collection \<^verbatim>\<open>books\<close> of two documents, an empty destination,
  and a destination that rejects the second document. Every other call succeeds.
\<close>

definition library :: env where
  "library h c =
     (case c of
        ListCollections db limit cursor \<Rightarrow>
          Listed [[(''$id'', JStr ''books''), (''name'', JStr ''Books'')]]
      | ListAttributes db coll limit cursor \<Rightarrow> Listed []
      | ListIndexes db coll limit cursor \<Rightarrow> Listed []
      | ListDocuments db coll limit cursor \<Rightarrow>
          (if db = ''src'' then
             Listed [[(''$id'', JStr ''d1''), (''title'', JStr ''Emma'')],
                     [(''$id'', JStr ''d2''), (''title'', JStr ''Ulysses'')]]
           else Listed [])
      | CreateDocument db coll data \<Rightarrow>
          (if field ''title'' data = Some (JStr ''Ulysses'') then Failed ''rejected'' else Done)
      | _ \<Rightarrow> Done)"


section \<open>Auxiliary notions\<close>

text \<open>
  An entry \<^verbatim>\<open>{ collectionId, collectionName, documents }\<close> of \<^verbatim>\<open>collectionDocs\<close> that
  belongs to a source collection: its id, its name, and documents that a fetch of it gave.
\<close>

definition fetchedFor :: "env \<Rightarrow> nat \<Rightarrow> string \<Rightarrow> obj \<Rightarrow> collection_docs \<Rightarrow> bool" where
  "fetchedFor env batchSize sourceDbId collection cd =
     (case cd of (cid, cname, docs) \<Rightarrow>
        cid = field ''$id'' collection \<and> cname = field ''name'' collection \<and>
        (\<exists>g g'. fetchAllDocuments env batchSize sourceDbId cid g = Some (Inr docs, g')))"

text \<open>The listing requests for documents of one database, and the document creations in it.\<close>

definition listsFrom :: "string \<Rightarrow> call \<Rightarrow> bool" where
  "listsFrom dest c = (\<exists>coll limit cursor. c = ListDocuments dest coll limit cursor)"

definition writesTo :: "string \<Rightarrow> call \<Rightarrow> bool" where
  "writesTo dest c = (\<exists>coll data. c = CreateDocument dest coll data)"

text \<open>A computation that ends from every history, and one that also throws nothing.\<close>

definition halts :: "'a run \<Rightarrow> bool" where
  "halts m = (\<forall>h. m h \<noteq> None)"

definition returns :: "'a run \<Rightarrow> ('a \<Rightarrow> bool) \<Rightarrow> bool" where
  "returns m Q = (\<forall>h. \<exists>a h'. m h = Some (Inr a, h') \<and> Q a)"

text \<open>A queue whose collection names all are strings.\<close>

definition textNames :: "collection_docs list \<Rightarrow> bool" where
  "textNames queue = (\<forall>(cid, cname, docs) \<in> set queue. isText cname)"

section \<open>The sanitizer: what one pass leaves\<close>

lemma storeAll_Nil [simp]: "storeAll S f [] acc = acc"
  by (simp add: storeAll_def)

lemma storeAll_Cons [simp]:
  "storeAll S f ((k, v) # ob) acc =
     storeAll S f ob (if k \<in> S then acc else put k (f v) acc)"
  by (simp add: storeAll_def)

lemma cleanNestedObject_storeAll:
  "cleanNestedObject ob sf = storeAll (insert ''__proto__'' (set sf)) (nestedValue sf) ob []"
  unfolding storeAll_def nestedValue_def nestedItem_def
  by (subst cleanNestedObject.simps) (rule fold_cong, auto simp: assign_def split: json.splits)

lemma cleanDocumentData_storeAll:
  "cleanDocumentData d = storeAll (insert ''__proto__'' (set systemFields)) topValue d []"
  unfolding storeAll_def topValue_def cleanDocumentData_def
  by (rule fold_cong) (auto simp: assign_def split: json.splits)

lemma carried_iff: "carried k \<longleftrightarrow> k \<notin> insert ''__proto__'' (set systemFields)"
  by (auto simp: carried_def)

lemma map_fst_put:
  "map fst (put k v ob) = (if k \<in> fst ` set ob then map fst ob else map fst ob @ [k])"
proof (induction ob)
  case Nil
  then show ?case by simp
next
  case (Cons p ob)
  obtain a b where p: "p = (a, b)" by (cases p)
  show ?case
  proof (cases "a = k")
    case True
    with p show ?thesis by simp
  next
    case False
    with p Cons.IH show ?thesis by (cases "k \<in> fst ` set ob") auto
  qed
qed

lemma keys_put: "fst ` set (put k v ob) = insert k (fst ` set ob)"
proof -
  have "set (map fst (put k v ob)) = insert k (set (map fst ob))"
    unfolding map_fst_put by auto
  then show ?thesis by simp
qed

lemma distinct_put: "distinct (map fst ob) \<Longrightarrow> distinct (map fst (put k v ob))"
  unfolding map_fst_put by auto

lemma put_fresh: "k \<notin> fst ` set ob \<Longrightarrow> put k v ob = ob @ [(k, v)]"
  by (induction ob) auto

lemma set_put: "(k', v') \<in> set (put k v ob) \<Longrightarrow> (k', v') \<in> set ob \<or> (k' = k \<and> v' = v)"
  by (induction ob) (auto split: if_splits)

lemma keys_storeAll:
  "fst ` set (storeAll S f ob acc) = fst ` set acc \<union> {k \<in> fst ` set ob. k \<notin> S}"
proof (induction ob arbitrary: acc)
  case Nil
  then show ?case by simp
next
  case (Cons p ob)
  obtain a b where p: "p = (a, b)" by (cases p)
  show ?case unfolding p storeAll_Cons Cons.IH
    by (cases "a \<in> S") (auto simp: keys_put)
qed

lemma distinct_storeAll:
  "distinct (map fst acc) \<Longrightarrow> distinct (map fst (storeAll S f ob acc))"
  by (induction ob arbitrary: acc) (auto simp: distinct_put)

lemma set_storeAll:
  "(k, v') \<in> set (storeAll S f ob acc) \<Longrightarrow>
     (k, v') \<in> set acc \<or> (\<exists>v. (k, v) \<in> set ob \<and> k \<notin> S \<and> v' = f v)"
proof (induction ob arbitrary: acc)
  case Nil
  then show ?case by simp
next
  case (Cons p ob)
  obtain a b where p: "p = (a, b)" by (cases p)
  show ?case
  proof (cases "a \<in> S")
    case True
    with Cons.prems p have "(k, v') \<in> set (storeAll S f ob acc)" by simp
    from Cons.IH [OF this] p show ?thesis by auto
  next
    case False
    with Cons.prems p have "(k, v') \<in> set (storeAll S f ob (put a (f b) acc))" by simp
    from Cons.IH [OF this] have
      "(k, v') \<in> set (put a (f b) acc) \<or> (\<exists>v. (k, v) \<in> set ob \<and> k \<notin> S \<and> v' = f v)" .
    then show ?thesis using p False by (auto dest: set_put)
  qed
qed

lemma storeAll_distinct:
  "distinct (map fst ob) \<Longrightarrow> fst ` set ob \<inter> fst ` set acc = {} \<Longrightarrow>
   storeAll S f ob acc = acc @ map (\<lambda>(k, v). (k, f v)) (filter (\<lambda>(k, v). k \<notin> S) ob)"
proof (induction ob arbitrary: acc)
  case Nil
  then show ?case by simp
next
  case (Cons p ob)
  obtain k v where p: "p = (k, v)" by (cases p)
  show ?case
  proof (cases "k \<in> S")
    case True
    with Cons p show ?thesis by simp
  next
    case False
    from Cons.prems p have fresh: "k \<notin> fst ` set acc" by auto
    from Cons.prems p have d: "distinct (map fst ob)" by simp
    from Cons.prems p have "fst ` set ob \<inter> fst ` set (put k (f v) acc) = {}"
      by (auto simp: keys_put)
    from Cons.IH [OF d this] False p fresh show ?thesis
      by (simp add: put_fresh)
  qed
qed

lemma not_related_clean:
  "\<not> isRelatedDocument (JObj (cleanNestedObject ob systemFields))"
proof -
  have "''$id'' \<notin> fst ` set (cleanNestedObject ob systemFields)"
    unfolding cleanNestedObject_storeAll keys_storeAll by (simp add: systemFields_def)
  then show ?thesis by (simp add: hasKey_def)
qed

lemma metaFree_nestedObject_gen:
  "sf = systemFields \<Longrightarrow> innerArraysClean (JObj ob) \<Longrightarrow>
   metaFree (JObj (cleanNestedObject ob sf))"
proof (induction ob sf rule: cleanNestedObject.induct)
  case (1 ob sf)
  note sf = \<open>sf = systemFields\<close>
  have "k \<notin> set systemFields \<and> metaFree v'"
    if mem: "(k, v') \<in> set (cleanNestedObject ob sf)" for k v'
  proof -
    from mem set_storeAll [of k v' "insert ''__proto__'' (set sf)" "nestedValue sf" ob "[]"]
    obtain v where v: "(k, v) \<in> set ob" "k \<notin> set sf" "v' = nestedValue sf v"
      by (auto simp: cleanNestedObject_storeAll)
    from "1.prems" v(1) have nv: "innerArraysClean v" by auto
    have "metaFree (nestedValue sf v)"
    proof (cases v)
      case (JObj inner)
      from "1.IH"(2) [OF v(1) refl v(2) JObj sf] nv JObj show ?thesis
        by (simp add: nestedValue_def)
    next
      case (JArr items)
      have "metaFree (nestedItem sf item)"
        if it: "item \<in> set items" for item
      proof (cases item)
        case (JObj io)
        from nv \<open>v = JArr items\<close>
        have "\<forall>x \<in> set items. if isArray x then metaFree x else innerArraysClean x" by simp
        with it have "if isArray item then metaFree item else innerArraysClean item" by blast
        with JObj have "innerArraysClean (JObj io)" by (simp del: innerArraysClean.simps)
        from "1.IH"(1) [OF v(1) refl v(2) JArr it JObj sf this] JObj show ?thesis
          by (simp add: nestedItem_def)
      next
        case (JArr ys)
        from nv \<open>v = JArr items\<close>
        have "\<forall>x \<in> set items. if isArray x then metaFree x else innerArraysClean x" by simp
        with it have "if isArray item then metaFree item else innerArraysClean item" by blast
        with JArr have "metaFree item" by (simp del: metaFree.simps)
        with JArr show ?thesis by (simp add: nestedItem_def)
      qed (simp_all add: nestedItem_def)
      with JArr show ?thesis by (simp add: nestedValue_def)
    qed (simp_all add: nestedValue_def)
    with v sf show ?thesis by simp
  qed
  then show ?case by auto
qed

lemma metaFree_nestedObject:
  "innerArraysClean (JObj ob) \<Longrightarrow> metaFree (JObj (cleanNestedObject ob systemFields))"
  by (rule metaFree_nestedObject_gen [OF refl])

lemma nestedValue_idem_step:
  assumes "\<And>inner. v = JObj inner \<Longrightarrow>
             cleanNestedObject (cleanNestedObject inner sf) sf = cleanNestedObject inner sf"
      and "\<And>items item io. v = JArr items \<Longrightarrow> item \<in> set items \<Longrightarrow> item = JObj io \<Longrightarrow>
             cleanNestedObject (cleanNestedObject io sf) sf = cleanNestedObject io sf"
  shows "nestedValue sf (nestedValue sf v) = nestedValue sf v"
proof (cases v)
  case (JObj inner)
  with assms(1) show ?thesis by (simp add: nestedValue_def)
next
  case (JArr items)
  have "nestedItem sf (nestedItem sf item) = nestedItem sf item"
    if "item \<in> set items" for item
    using assms(2) [OF JArr that] by (cases item) (simp_all add: nestedItem_def)
  with JArr show ?thesis by (simp add: nestedValue_def)
qed (simp_all add: nestedValue_def)

lemma storeAll_fixed:
  assumes d: "distinct (map fst P)"
      and k: "fst ` set P \<inter> S = {}"
      and f: "\<And>k v. (k, v) \<in> set P \<Longrightarrow> f v = v"
  shows "storeAll S f P [] = P"
proof -
  have "storeAll S f P [] = map (\<lambda>(k, v). (k, f v)) (filter (\<lambda>(k, v). k \<notin> S) P)"
    using storeAll_distinct [OF d, of "[]" S f] by simp
  also from k have "filter (\<lambda>(k, v). k \<notin> S) P = P"
    by (intro filter_True) auto
  also from f have "map (\<lambda>(k, v). (k, f v)) P = P"
    by (intro map_idI) auto
  finally show ?thesis .
qed

lemma cleanNestedObject_idem:
  "cleanNestedObject (cleanNestedObject ob sf) sf = cleanNestedObject ob sf"
proof (induction ob sf rule: cleanNestedObject.induct)
  case (1 ob sf)
  let ?P = "cleanNestedObject ob sf"
  let ?S = "insert ''__proto__'' (set sf)"
  have d: "distinct (map fst ?P)"
    unfolding cleanNestedObject_storeAll by (rule distinct_storeAll) simp
  have k: "fst ` set ?P \<inter> ?S = {}"
    unfolding cleanNestedObject_storeAll keys_storeAll by auto
  have f: "nestedValue sf v' = v'" if mem: "(k, v') \<in> set ?P" for k v'
  proof -
    from mem set_storeAll [of k v' ?S "nestedValue sf" ob "[]"]
    obtain v where v: "(k, v) \<in> set ob" "k \<notin> set sf" "v' = nestedValue sf v"
      by (auto simp: cleanNestedObject_storeAll)
    have "nestedValue sf (nestedValue sf v) = nestedValue sf v"
      by (rule nestedValue_idem_step) (use "1.IH" v in blast)+
    with v show ?thesis by simp
  qed
  have "cleanNestedObject ?P sf = storeAll ?S (nestedValue sf) ?P []"
    by (rule cleanNestedObject_storeAll)
  also have "\<dots> = ?P" using d k f by (rule storeAll_fixed)
  finally show ?case .
qed

lemma related_id:
  "isRelatedDocument v \<Longrightarrow> \<exists>i. relatedId v = Some i \<and> topValue v = i \<and> cleanItem v = i"
  by (cases v) (auto simp: topValue_def cleanItem_def hasKey_def field_def
                     dest!: weak_map_of_SomeI split: option.splits)

lemma cleanItem_related: "isRelatedDocument item \<Longrightarrow> Some (cleanItem item) = relatedId item"
  using related_id [of item] by auto

lemma topValue_related: "isRelatedDocument v \<Longrightarrow> Some (topValue v) = relatedId v"
  using related_id [of v] by auto

lemma primitive_fixed: "primitive i \<Longrightarrow> topValue i = i \<and> cleanItem i = i \<and> metaFree i"
  by (cases i) (simp_all add: topValue_def cleanItem_def)

lemma cleanItem_plain:
  "\<not> isRelatedDocument item \<Longrightarrow> cleanItem item = nestedItem systemFields item"
  by (simp add: cleanItem_def nestedItem_def)

lemma nestedItem_idem: "nestedItem sf (nestedItem sf item) = nestedItem sf item"
  by (cases item) (simp_all add: nestedItem_def cleanNestedObject_idem)

lemma not_related_nestedItem:
  "\<not> isRelatedDocument item \<Longrightarrow> \<not> isRelatedDocument (nestedItem systemFields item)"
  by (cases item) (simp_all add: nestedItem_def not_related_clean del: isRelatedDocument.simps)

lemma related_primitive:
  assumes "isRelatedDocument v" "primitiveIdIfRelated v"
  obtains i where "relatedId v = Some i" "primitive i" "topValue v = i" "cleanItem v = i"
proof -
  from related_id [OF assms(1)] obtain i where
    i: "relatedId v = Some i" "topValue v = i" "cleanItem v = i" by blast
  with assms have "primitive i" by (simp add: primitiveIdIfRelated_def)
  with i that show ?thesis by blast
qed

lemma cleanItem_idem:
  assumes "primitiveIdIfRelated item"
  shows "cleanItem (cleanItem item) = cleanItem item"
proof (cases "isRelatedDocument item")
  case True
  from True assms obtain i where "primitive i" "cleanItem item = i"
    by (rule related_primitive)
  then show ?thesis by (simp add: primitive_fixed)
next
  case False
  then show ?thesis
    by (simp add: cleanItem_plain not_related_nestedItem nestedItem_idem)
qed

lemma topValue_idem:
  assumes "topIdsArePrimitive v"
  shows "topValue (topValue v) = topValue v"
proof (cases v)
  case (JArr items)
  with assms have "\<forall>item \<in> set items. cleanItem (cleanItem item) = cleanItem item"
    by (auto simp: topIdsArePrimitive_def intro: cleanItem_idem)
  with JArr show ?thesis by (simp add: topValue_def)
next
  case (JObj inner)
  show ?thesis
  proof (cases "isRelatedDocument v")
    case True
    from assms JObj have "primitiveIdIfRelated v" by (simp add: topIdsArePrimitive_def)
    with True obtain i where "primitive i" "topValue v = i"
      by (rule related_primitive)
    then show ?thesis by (simp add: primitive_fixed)
  next
    case False
    with JObj have tv: "topValue v = JObj (cleanNestedObject inner systemFields)"
      by (simp add: topValue_def del: isRelatedDocument.simps)
    have "topValue (JObj (cleanNestedObject inner systemFields))
            = JObj (cleanNestedObject (cleanNestedObject inner systemFields) systemFields)"
      using not_related_clean [of inner]
      by (simp add: topValue_def del: isRelatedDocument.simps)
    with tv show ?thesis by (simp add: cleanNestedObject_idem)
  qed
qed (simp_all add: topValue_def)

lemma metaFree_cleanItem:
  assumes "primitiveIdIfRelated item" "if isArray item then metaFree item else innerArraysClean item"
  shows "metaFree (cleanItem item)"
proof (cases "isRelatedDocument item")
  case True
  from True assms(1) obtain i where "primitive i" "cleanItem item = i"
    by (rule related_primitive)
  then show ?thesis by (simp add: primitive_fixed)
next
  case False
  show ?thesis
  proof (cases item)
    case (JObj io)
    with False have "cleanItem item = JObj (cleanNestedObject io systemFields)"
      by (simp add: cleanItem_def del: isRelatedDocument.simps)
    moreover from assms(2) JObj have "metaFree (JObj (cleanNestedObject io systemFields))"
      by (intro metaFree_nestedObject) simp
    ultimately show ?thesis by simp
  next
    case (JArr ys)
    with assms(2) show ?thesis by (simp add: cleanItem_def)
  qed (simp_all add: cleanItem_def)
qed

lemma metaFree_topValue:
  assumes "topIdsArePrimitive v" "innerArraysClean v"
  shows "metaFree (topValue v)"
proof (cases v)
  case (JArr items)
  with assms have "\<forall>item \<in> set items. metaFree (cleanItem item)"
    by (auto simp: topIdsArePrimitive_def intro!: metaFree_cleanItem)
  with JArr show ?thesis by (simp add: topValue_def)
next
  case (JObj inner)
  show ?thesis
  proof (cases "isRelatedDocument v")
    case True
    from assms JObj have "primitiveIdIfRelated v" by (simp add: topIdsArePrimitive_def)
    with True obtain i where "primitive i" "topValue v = i"
      by (rule related_primitive)
    then show ?thesis by (simp add: primitive_fixed)
  next
    case False
    with JObj have "topValue v = JObj (cleanNestedObject inner systemFields)"
      by (simp add: topValue_def del: isRelatedDocument.simps)
    moreover from assms(2) JObj have "metaFree (JObj (cleanNestedObject inner systemFields))"
      by (intro metaFree_nestedObject) simp
    ultimately show ?thesis by simp
  qed
qed (simp_all add: topValue_def)

lemma field_mapped:
  "distinct (map fst d) \<Longrightarrow> (k, v) \<in> set d \<Longrightarrow> k \<notin> S \<Longrightarrow>
   map_of (map (\<lambda>(k, v). (k, f v)) (filter (\<lambda>(k, v). k \<notin> S) d)) k = Some (f v)"
proof (induction d)
  case Nil
  then show ?case by simp
next
  case (Cons p d)
  obtain a b where p: "p = (a, b)" by (cases p)
  show ?case
  proof (cases "a = k")
    case True
    with Cons.prems p have "b = v" by (auto simp: image_iff)
    with True p Cons.prems show ?thesis by simp
  next
    case False
    with Cons p show ?thesis by auto
  qed
qed

lemma field_storeAll:
  "distinct (map fst d) \<Longrightarrow> (k, v) \<in> set d \<Longrightarrow> k \<notin> S \<Longrightarrow>
   field k (storeAll S f d []) = Some (f v)"
  using storeAll_distinct [of d "[]" S f] field_mapped [of d k v S f]
  by (simp add: field_def)

lemma field_cleanDocumentData:
  "distinct (map fst d) \<Longrightarrow> (k, v) \<in> set d \<Longrightarrow> carried k \<Longrightarrow>
   field k (cleanDocumentData d) = Some (topValue v)"
  unfolding cleanDocumentData_storeAll carried_iff by (rule field_storeAll)

lemma field_cleanNestedObject:
  "distinct (map fst ob) \<Longrightarrow> (k, v) \<in> set ob \<Longrightarrow> carried k \<Longrightarrow>
   field k (cleanNestedObject ob systemFields) = Some (nestedValue systemFields v)"
  unfolding cleanNestedObject_storeAll carried_iff by (rule field_storeAll)

lemma keys_cleanDocumentData:
  "fst ` set (cleanDocumentData d) = {k \<in> fst ` set d. carried k}"
  unfolding cleanDocumentData_storeAll keys_storeAll carried_iff by simp

lemma metaFree_cleanDocumentData:
  assumes "innerArraysClean (JObj d)" "relationIdsArePrimitive d"
  shows "metaFree (JObj (cleanDocumentData d))"
proof -
  let ?S = "insert ''__proto__'' (set systemFields)"
  have "k \<notin> set systemFields \<and> metaFree v'" if mem: "(k, v') \<in> set (cleanDocumentData d)" for k v'
  proof -
    from mem set_storeAll [of k v' ?S topValue d "[]"]
    obtain v where v: "(k, v) \<in> set d" "k \<notin> ?S" "v' = topValue v"
      by (auto simp: cleanDocumentData_storeAll)
    from assms(2) v have "topIdsArePrimitive v"
      by (auto simp: relationIdsArePrimitive_def carried_iff)
    moreover from assms(1) v(1) have "innerArraysClean v" by auto
    ultimately have "metaFree (topValue v)" by (rule metaFree_topValue)
    with v show ?thesis by simp
  qed
  then show ?thesis by auto
qed

lemma cleanDocumentData_idem:
  assumes "relationIdsArePrimitive d"
  shows "cleanDocumentData (cleanDocumentData d) = cleanDocumentData d"
proof -
  let ?P = "cleanDocumentData d"
  let ?S = "insert ''__proto__'' (set systemFields)"
  have d: "distinct (map fst ?P)"
    unfolding cleanDocumentData_storeAll by (rule distinct_storeAll) simp
  have k: "fst ` set ?P \<inter> ?S = {}"
    unfolding cleanDocumentData_storeAll keys_storeAll by auto
  have f: "topValue v' = v'" if mem: "(k, v') \<in> set ?P" for k v'
  proof -
    from mem set_storeAll [of k v' ?S topValue d "[]"]
    obtain v where v: "(k, v) \<in> set d" "k \<notin> ?S" "v' = topValue v"
      by (auto simp: cleanDocumentData_storeAll)
    from assms v have "topIdsArePrimitive v"
      by (auto simp: relationIdsArePrimitive_def carried_iff)
    then have "topValue (topValue v) = topValue v" by (rule topValue_idem)
    with v show ?thesis by simp
  qed
  have "cleanDocumentData ?P = storeAll ?S topValue ?P []"
    by (rule cleanDocumentData_storeAll)
  also have "\<dots> = ?P" using d k f by (rule storeAll_fixed)
  finally show ?thesis .
qed

section \<open>Runs and their histories\<close>

lemma emitsOnlyD:
  "emitsOnly m allowed \<Longrightarrow> m h = Some (r, h') \<Longrightarrow>
   \<exists>l. h' = h @ l \<and> (\<forall>(c, x) \<in> set l. allowed c)"
  unfolding emitsOnly_def by blast

lemma emitsOnlyI:
  "(\<And>h r h'. m h = Some (r, h') \<Longrightarrow> \<exists>l. h' = h @ l \<and> (\<forall>(c, x) \<in> set l. allowed c)) \<Longrightarrow>
   emitsOnly m allowed"
  unfolding emitsOnly_def by blast

lemma emitsOnly_weaken:
  assumes "emitsOnly m P" "\<And>c. P c \<Longrightarrow> Q c"
  shows "emitsOnly m Q"
proof (rule emitsOnlyI)
  fix h r h'
  assume "m h = Some (r, h')"
  from emitsOnlyD [OF assms(1) this] obtain l where
    l: "h' = h @ l" "\<forall>(c, x) \<in> set l. P c" by blast
  from l(2) assms(2) have "\<forall>(c, x) \<in> set l. Q c" by blast
  with l(1) show "\<exists>l. h' = h @ l \<and> (\<forall>(c, x) \<in> set l. Q c)" by blast
qed

lemma request_eq [simp]: "request env c h = (env h c, h @ [(c, env h c)])"
  by (simp add: request_def)

lemma ret_eq [simp]: "ret a h = Some (r, h') \<longleftrightarrow> r = Inr a \<and> h' = h"
  by (auto simp: ret_def)

lemma raise_eq [simp]: "raise e h = Some (r, h') \<longleftrightarrow> r = Inl e \<and> h' = h"
  by (auto simp: raise_def)

lemma andThenE:
  assumes "andThen m f h = Some (r, h')"
  obtains (thrown) e where "m h = Some (Inl e, h')" "r = Inl e"
        | (went) a h1 where "m h = Some (Inr a, h1)" "f a h1 = Some (r, h')"
  using assms by (auto simp: andThen_def split: option.splits sum.splits)

lemma andThen_Inr: "m h = Some (Inr a, h1) \<Longrightarrow> andThen m f h = f a h1"
  by (simp add: andThen_def)

lemma andThen_Inl: "m h = Some (Inl e, h1) \<Longrightarrow> andThen m f h = Some (Inl e, h1)"
  by (simp add: andThen_def)

lemma awaitE:
  assumes "await env c h = Some (r, h')"
  obtains "h' = h @ [(c, env h c)]" "r = (if isFailed (env h c)
              then Inl (Error (case env h c of Failed m \<Rightarrow> m)) else Inr (env h c))"
  using assms by (auto simp: await_def split: response.splits)

lemma emitsOnly_ret [intro!]: "emitsOnly (ret a) P"
  by (rule emitsOnlyI) simp

lemma emitsOnly_raise [intro!]: "emitsOnly (raise e) P"
  by (rule emitsOnlyI) simp

lemma emitsOnly_await: "P c \<Longrightarrow> emitsOnly (await env c) P"
  by (rule emitsOnlyI) (auto elim!: awaitE)

lemma emitsOnly_sleep: "P (Sleep ms) \<Longrightarrow> emitsOnly (sleep env ms) P"
  by (rule emitsOnlyI) (auto simp: sleep_def)

lemma emitsOnly_andThen:
  assumes "emitsOnly m P" "\<And>a. emitsOnly (f a) P"
  shows "emitsOnly (andThen m f) P"
proof (rule emitsOnlyI)
  fix h r h'
  assume "andThen m f h = Some (r, h')"
  then show "\<exists>l. h' = h @ l \<and> (\<forall>(c, x) \<in> set l. P c)"
  proof (cases rule: andThenE)
    case (thrown e)
    with assms(1) show ?thesis by (auto dest: emitsOnlyD)
  next
    case (went a h1)
    from emitsOnlyD [OF assms(1) went(1)] obtain l1 where
      l1: "h1 = h @ l1" "\<forall>(c, x) \<in> set l1. P c" by blast
    from emitsOnlyD [OF assms(2) went(2)] obtain l2 where
      l2: "h' = h1 @ l2" "\<forall>(c, x) \<in> set l2. P c" by blast
    from l1 l2 show ?thesis by (intro exI [of _ "l1 @ l2"]) auto
  qed
qed

lemma fetchLoop_log:
  assumes "fetchLoop env list k P items lastId h = Some y"
  shows "\<exists>l. snd y = h @ l \<and> (\<forall>(c, x) \<in> set l. \<exists>cur. c = list P cur)"
  using assms
proof (induction env list k P items lastId h y
         rule: fetchLoop.raw_induct [rotated 1, consumes 1, case_names step])
  case (step loop env list k P items lastId h y)
  let ?c = "list P (if truthy lastId then lastId else None)"
  show ?case
  proof (cases "env h ?c")
    case (Failed m)
    with step(2) show ?thesis by auto
  next
    case Done
    with step(2) show ?thesis by auto
  next
    case (Listed page)
    show ?thesis
    proof (cases "length page < P \<or> page = []")
      case True
      with step(2) Listed show ?thesis by (auto split: if_splits)
    next
      case False
      with step(2) Listed have
        "loop env list k P (items @ page) (field k (last page)) (h @ [(?c, Listed page)]) = Some y"
        by simp
      from step(1) [OF this] obtain l where
        "snd y = (h @ [(?c, Listed page)]) @ l" "\<forall>(c, x) \<in> set l. \<exists>cur. c = list P cur"
        by blast
      then show ?thesis by (intro exI [of _ "(?c, Listed page) # l"]) auto
    qed
  qed
qed

lemma emitsOnly_fetchLoop:
  "(\<And>lim cur. P (list lim cur)) \<Longrightarrow> emitsOnly (fetchLoop env list k n items lastId) P"
  by (rule emitsOnlyI) (drule fetchLoop_log, fastforce)

lemma emitsOnly_fetchAllAttributes:
  "(\<And>c. isListing c \<Longrightarrow> P c) \<Longrightarrow> emitsOnly (fetchAllAttributes env db coll) P"
  unfolding fetchAllAttributes_def by (rule emitsOnly_fetchLoop) simp

lemma emitsOnly_fetchAllIndexes:
  "(\<And>c. isListing c \<Longrightarrow> P c) \<Longrightarrow> emitsOnly (fetchAllIndexes env db coll) P"
  unfolding fetchAllIndexes_def by (rule emitsOnly_fetchLoop) simp

lemma emitsOnly_fetchAllCollections:
  "(\<And>c. isListing c \<Longrightarrow> P c) \<Longrightarrow> emitsOnly (fetchAllCollections env db) P"
  unfolding fetchAllCollections_def by (rule emitsOnly_fetchLoop) simp

lemma emitsOnly_fetchAllDocuments:
  "(\<And>c. isListing c \<Longrightarrow> P c) \<Longrightarrow> emitsOnly (fetchAllDocuments env n db coll) P"
  unfolding fetchAllDocuments_def by (rule emitsOnly_fetchLoop) simp

lemma emitsOnly_waitForAttribute:
  assumes "\<And>c. isListing c \<Longrightarrow> P c" "P (Sleep 1000)"
  shows "emitsOnly (waitForAttribute env db coll key n) P"
proof (induction n)
  case 0
  show ?case by auto
next
  case (Suc n)
  show ?case
    unfolding waitForAttribute.simps
  proof (rule emitsOnly_andThen)
    show "emitsOnly (fetchAllAttributes env db coll) P"
      by (rule emitsOnly_fetchAllAttributes) (rule assms(1))
  next
    fix items
    show "emitsOnly
            (if isAvailable (find (\<lambda>a. strictEquals (field ''key'' a) key) items) then ret True
             else andThen (sleep env 1000) (\<lambda>_. waitForAttribute env db coll key n)) P"
      using Suc assms(2) by (simp add: emitsOnly_ret emitsOnly_andThen emitsOnly_sleep)
  qed
qed

lemma emitsOnly_waitForIndex:
  assumes "\<And>c. isListing c \<Longrightarrow> P c" "P (Sleep 1000)"
  shows "emitsOnly (waitForIndex env db coll key n) P"
proof (induction n)
  case 0
  show ?case by auto
next
  case (Suc n)
  show ?case
    unfolding waitForIndex.simps
  proof (rule emitsOnly_andThen)
    show "emitsOnly (fetchAllIndexes env db coll) P"
      by (rule emitsOnly_fetchAllIndexes) (rule assms(1))
  next
    fix items
    show "emitsOnly
            (if isAvailable (find (\<lambda>a. strictEquals (field ''key'' a) key) items) then ret True
             else andThen (sleep env 1000) (\<lambda>_. waitForIndex env db coll key n)) P"
      using Suc assms(2) by (simp add: emitsOnly_ret emitsOnly_andThen emitsOnly_sleep)
  qed
qed

section \<open>The paginator against a stable listing\<close>

lemma dropWhile_last_key:
  assumes "distinct (map f (pre @ rest))" "pre \<noteq> []"
  shows "dropWhile (\<lambda>x. f x \<noteq> f (last pre)) (pre @ rest) = last pre # rest"
proof -
  obtain ys y where pre: "pre = ys @ [y]" using assms(2) by (metis rev_exhaust)
  with assms(1) have "f y \<notin> f ` set ys" by auto
  then have "\<forall>x \<in> set ys. f x \<noteq> f y" by (metis imageI)
  then have "dropWhile (\<lambda>x. f x \<noteq> f y) (ys @ y # rest) = y # rest"
    by (simp add: dropWhile_append3)
  with pre show ?thesis by simp
qed

lemma fetchLoop_stable:
  assumes P: "0 < P"
      and d: "distinct (map (field k) items)"
      and t: "\<forall>x \<in> set items. truthy (field k x)"
      and env: "\<And>h cur. env h (list P cur) = pageAfter k items P cur"
  shows "items = pre @ rest \<Longrightarrow> lastId = (if pre = [] then None else field k (last pre)) \<Longrightarrow>
         \<exists>log. fetchLoop env list k P pre lastId h = Some (Inr items, h @ log) \<and>
               length log = length rest div P + 1 \<and>
               (\<forall>(c, r) \<in> set log. \<exists>cur. c = list P cur)"
proof (induction "length rest" arbitrary: pre rest lastId h rule: less_induct)
  case less
  let ?cur = "if truthy lastId then lastId else None"
  have page: "env h (list P ?cur) = Listed (take P rest)"
  proof (cases "pre = []")
    case True
    with less.prems show ?thesis by (simp add: env pageAfter_def)
  next
    case False
    with less.prems t have tr: "truthy (field k (last pre))" by auto
    then obtain c where c: "field k (last pre) = Some c" by (cases "field k (last pre)") auto
    from d less.prems(1) False
    have "dropWhile (\<lambda>x. field k x \<noteq> field k (last pre)) items = last pre # rest"
      by (simp add: dropWhile_last_key)
    with False less.prems tr c show ?thesis by (simp add: env pageAfter_def)
  qed
  show ?case
  proof (cases "length rest < P")
    case True
    then have "fetchLoop env list k P pre lastId h
                 = Some (Inr items, h @ [(list P ?cur, Listed rest)])"
      using page less.prems(1) by (subst fetchLoop.simps) (simp add: request_def)
    with True show ?thesis by auto
  next
    case False
    let ?h' = "h @ [(list P ?cur, Listed (take P rest))]"
    from False P have ne: "take P rest \<noteq> []" by (cases rest) auto
    have step: "fetchLoop env list k P pre lastId h
                 = fetchLoop env list k P (pre @ take P rest) (field k (last (take P rest))) ?h'"
      using page False ne by (subst fetchLoop.simps) (simp add: request_def)
    have lt: "length (drop P rest) < length rest" using False P by simp
    have sp: "items = (pre @ take P rest) @ drop P rest" using less.prems(1) by simp
    have li: "field k (last (take P rest))
               = (if pre @ take P rest = [] then None else field k (last (pre @ take P rest)))"
      using ne by simp
    from less.hyps [OF lt sp li, of ?h'] obtain log where
      log: "fetchLoop env list k P (pre @ take P rest) (field k (last (take P rest))) ?h'
              = Some (Inr items, ?h' @ log)"
        "length log = length (drop P rest) div P + 1"
        "\<forall>(c, r) \<in> set log. \<exists>cur. c = list P cur"
      by blast
    have "length rest div P = (length rest - P) div P + 1"
      using False P by (simp add: le_div_geq)
    with log step show ?thesis
      by (intro exI [of _ "(list P ?cur, Listed (take P rest)) # log"]) auto
  qed
qed


lemma fetchLoop_stable_all:
  assumes "0 < P" "distinct (map (field k) items)" "\<forall>x \<in> set items. truthy (field k x)"
      and "\<And>h cur. env h (list P cur) = pageAfter k items P cur"
  shows "\<exists>log. fetchLoop env list k P [] None h = Some (Inr items, h @ log) \<and>
               length log = length items div P + 1 \<and>
               (\<forall>(c, r) \<in> set log. \<exists>cur. c = list P cur)"
  using fetchLoop_stable [where env = env and list = list and pre = "[]" and rest = items
      and lastId = None and h = h and P = P and k = k and items = items] assms
  by simp

section \<open>The schema replicator: calls made and results returned\<close>

lemma createAttribute_cases:
  assumes "createAttribute env db coll a h = (res, h')"
  obtains (unknown) "createAttributeCall a = None" "h' = h" "\<not> success res"
    | (called) sdkMethod args where "createAttributeCall a = Some (sdkMethod, args)"
        "h' = h @ [(CreateAttribute sdkMethod db coll args, env h (CreateAttribute sdkMethod db coll args))]"
        "success res = (\<not> isFailed (env h (CreateAttribute sdkMethod db coll args)))"
  using assms
  by (auto simp: createAttribute_def split: option.splits response.splits prod.splits)

lemma attributeSubmissions_simps [simp]:
  "attributeSubmissions [] = []"
  "attributeSubmissions (l @ l') = attributeSubmissions l @ attributeSubmissions l'"
  "attributeSubmissions ((c, r) # l) = (if isCreateAttribute c then c # attributeSubmissions l
                                         else attributeSubmissions l)"
  by (simp_all add: attributeSubmissions_def)

lemma attributeFailures_simps [simp]:
  "attributeFailures [] = []"
  "attributeFailures (l @ l') = attributeFailures l @ attributeFailures l'"
  "attributeFailures ((c, r) # l) = (if isCreateAttribute c \<and> isFailed r then (c, r) # attributeFailures l
                                      else attributeFailures l)"
  by (simp_all add: attributeFailures_def)

lemma failedIndexErrors_simps [simp]:
  "failedIndexErrors [] = []"
  "failedIndexErrors (l @ l') = failedIndexErrors l @ failedIndexErrors l'"
  "failedIndexErrors (e # l) = indexError e @ failedIndexErrors l"
  by (simp_all add: failedIndexErrors_def)

lemma no_submissions:
  "\<forall>(c, x) \<in> set l. \<not> isCreateAttribute c \<Longrightarrow> attributeSubmissions l = []"
  by (induction l) auto

lemma no_attributeFailures:
  "\<forall>(c, x) \<in> set l. \<not> isCreateAttribute c \<Longrightarrow> attributeFailures l = []"
  by (induction l) auto

lemma indexError_other: "\<not> isCreateIndex (fst e) \<Longrightarrow> indexError e = []"
  by (cases e rule: indexError.cases) auto

lemma no_failedIndexErrors:
  "\<forall>(c, x) \<in> set l. \<not> isCreateIndex c \<Longrightarrow> failedIndexErrors l = []"
  by (induction l) (auto simp: indexError_other)

lemma expectedSubmissions_Nil [simp]: "expectedSubmissions db coll [] = []"
  by (simp add: expectedSubmissions_def map_filter_simps)

lemma expectedSubmissions_Cons:
  "expectedSubmissions db coll (a # rest) =
     (if isChildRelationship a then expectedSubmissions db coll rest
      else case createAttributeCall a of
             None \<Rightarrow> expectedSubmissions db coll rest
           | Some (sdkMethod, args) \<Rightarrow> CreateAttribute sdkMethod db coll args # expectedSubmissions db coll rest)"
  by (auto simp: expectedSubmissions_def map_filter_simps split: option.splits)

lemma waitForAttribute_quiet:
  assumes "waitForAttribute env db coll key n h = Some (r, h')"
  obtains l where "h' = h @ l" "\<forall>(c, x) \<in> set l. isListing c \<or> isSleep c"
proof -
  have "emitsOnly (waitForAttribute env db coll key n) (\<lambda>c. isListing c \<or> isSleep c)"
    by (rule emitsOnly_waitForAttribute) simp_all
  from emitsOnlyD [OF this assms] that show ?thesis by blast
qed

lemma waitForIndex_quiet:
  assumes "waitForIndex env db coll key n h = Some (r, h')"
  obtains l where "h' = h @ l" "\<forall>(c, x) \<in> set l. isListing c \<or> isSleep c"
proof -
  have "emitsOnly (waitForIndex env db coll key n) (\<lambda>c. isListing c \<or> isSleep c)"
    by (rule emitsOnly_waitForIndex) simp_all
  from emitsOnlyD [OF this assms] that show ?thesis by blast
qed

lemma quiet_facts:
  assumes "\<forall>(c, x) \<in> set l. isListing c \<or> isSleep c"
  shows "attributeSubmissions l = []" "attributeFailures l = []" "failedIndexErrors l = []"
proof -
  from assms have a: "\<forall>(c, x) \<in> set l. \<not> isCreateAttribute c"
    by (auto elim!: isListing.elims isSleep.elims)
  from assms have b: "\<forall>(c, x) \<in> set l. \<not> isCreateIndex c"
    by (auto elim!: isListing.elims isSleep.elims)
  from a show "attributeSubmissions l = []" by (rule no_submissions)
  from a show "attributeFailures l = []" by (rule no_attributeFailures)
  from b show "failedIndexErrors l = []" by (rule no_failedIndexErrors)
qed

lemma createAttributesLoop_log:
  "createAttributesLoop env db coll attrs acc h = Some (r, h') \<Longrightarrow>
   \<exists>l. h' = h @ l \<and>
       (\<forall>(c, x) \<in> set l. isListing c \<or> isSleep c \<or> isCreateAttribute c) \<and>
       (\<exists>rest. expectedSubmissions db coll attrs = attributeSubmissions l @ rest \<and>
               (\<forall>res. r = Inr res \<longrightarrow> rest = [])) \<and>
       (\<forall>res. r = Inr res \<longrightarrow>
          errorCount acc + length (attributeFailures l) \<le> errorCount res)"
proof (induction attrs arbitrary: acc h)
  case Nil
  then show ?case by simp
next
  case (Cons a attrs)
  show ?case
  proof (cases "isChildRelationship a")
    case True
    with Cons.prems have "createAttributesLoop env db coll attrs acc h = Some (r, h')" by simp
    from Cons.IH [OF this] True show ?thesis by (simp add: expectedSubmissions_Cons)
  next
    case False
    obtain res1 h1 where ca: "createAttribute env db coll a h = (res1, h1)"
      by (cases "createAttribute env db coll a h")
    from ca show ?thesis
    proof (cases rule: createAttribute_cases)
      case unknown
      with Cons.prems False ca have
        "createAttributesLoop env db coll attrs
           (acc\<lparr>errorCount := errorCount acc + 1,
                errors := errors acc @ [(field ''key'' a, error res1)]\<rparr>) h = Some (r, h')"
        by simp
      from Cons.IH [OF this] obtain l rest where
        l: "h' = h @ l" "\<forall>(c, x) \<in> set l. isListing c \<or> isSleep c \<or> isCreateAttribute c"
           "expectedSubmissions db coll attrs = attributeSubmissions l @ rest"
           "\<forall>res. r = Inr res \<longrightarrow> rest = []"
           "\<forall>res. r = Inr res \<longrightarrow> errorCount acc + 1 + length (attributeFailures l) \<le> errorCount res"
        by auto
      with False unknown show ?thesis
        by (intro exI [of _ l]) (auto simp: expectedSubmissions_Cons)
    next
      case (called sdkMethod args)
      let ?c = "CreateAttribute sdkMethod db coll args"
      let ?e = "(?c, env h ?c)"
      show ?thesis
      proof (cases "isFailed (env h ?c)")
        case True
        with Cons.prems False ca called have
          "createAttributesLoop env db coll attrs
             (acc\<lparr>errorCount := errorCount acc + 1,
                  errors := errors acc @ [(field ''key'' a, error res1)]\<rparr>) (h @ [?e]) = Some (r, h')"
          by simp
        from Cons.IH [OF this] obtain l rest where
          l: "h' = (h @ [?e]) @ l" "\<forall>(c, x) \<in> set l. isListing c \<or> isSleep c \<or> isCreateAttribute c"
             "expectedSubmissions db coll attrs = attributeSubmissions l @ rest"
             "\<forall>res. r = Inr res \<longrightarrow> rest = []"
             "\<forall>res. r = Inr res \<longrightarrow> errorCount acc + 1 + length (attributeFailures l) \<le> errorCount res"
          by auto
        with False called True show ?thesis
          by (intro exI [of _ "?e # l"]) (auto simp: expectedSubmissions_Cons)
      next
        case ok: False
        with Cons.prems False ca called have run:
          "andThen (waitForAttribute env db coll (field ''key'' a) 30)
             (\<lambda>_. createAttributesLoop env db coll attrs (acc\<lparr>successCount := successCount acc + 1\<rparr>))
             (h @ [?e]) = Some (r, h')"
          by simp
        from run show ?thesis
        proof (cases rule: andThenE)
          case (thrown e)
          from thrown(1) obtain lw where
            lw: "h' = (h @ [?e]) @ lw" "\<forall>(c, x) \<in> set lw. isListing c \<or> isSleep c"
            by (rule waitForAttribute_quiet)
          from quiet_facts [OF lw(2)] lw thrown(2) False called ok show ?thesis
            by (intro exI [of _ "?e # lw"]) (auto simp: expectedSubmissions_Cons)
        next
          case (went b h2)
          from went(1) obtain lw where
            lw: "h2 = (h @ [?e]) @ lw" "\<forall>(c, x) \<in> set lw. isListing c \<or> isSleep c"
            by (rule waitForAttribute_quiet)
          from Cons.IH [OF went(2)] obtain l rest where
            l: "h' = h2 @ l" "\<forall>(c, x) \<in> set l. isListing c \<or> isSleep c \<or> isCreateAttribute c"
               "expectedSubmissions db coll attrs = attributeSubmissions l @ rest"
               "\<forall>res. r = Inr res \<longrightarrow> rest = []"
               "\<forall>res. r = Inr res \<longrightarrow> errorCount acc + length (attributeFailures l) \<le> errorCount res"
            by auto
          from quiet_facts [OF lw(2)] lw l False called ok show ?thesis
            by (intro exI [of _ "?e # lw @ l"]) (auto simp: expectedSubmissions_Cons)
        qed
      qed
    qed
  qed
qed

lemma createIndex_cases:
  assumes "createIndex env db coll idx h = (res, h')"
  obtains c where "isCreateIndex c" "h' = h @ [(c, env h c)]"
    "success res = (\<not> isFailed (env h c))"
    "indexError (c, env h c) = (if success res then [] else [(field ''key'' idx, error res)])"
proof -
  let ?c = "CreateIndex db coll (field ''key'' idx) (field ''type'' idx)
              (field ''attributes'' idx) (orElse (field ''orders'' idx) (JArr []))"
  from assms have "h' = h @ [(?c, env h ?c)]" "success res = (\<not> isFailed (env h ?c))"
    "indexError (?c, env h ?c) = (if success res then [] else [(field ''key'' idx, error res)])"
    by (auto simp: createIndex_def split: response.splits)
  then show ?thesis by (intro that [of ?c]) simp_all
qed

lemma createIndexesLoop_log:
  "createIndexesLoop env db coll idxs acc h = Some (r, h') \<Longrightarrow>
   \<exists>l. h' = h @ l \<and>
       (\<forall>(c, x) \<in> set l. isListing c \<or> isSleep c \<or> isCreateIndex c) \<and>
       (\<forall>res. r = Inr res \<longrightarrow> errors res = errors acc @ failedIndexErrors l)"
proof (induction idxs arbitrary: acc h)
  case Nil
  then show ?case by simp
next
  case (Cons idx idxs)
  obtain res1 h1 where ci: "createIndex env db coll idx h = (res1, h1)"
    by (cases "createIndex env db coll idx h")
  from ci obtain c where c: "isCreateIndex c" "h1 = h @ [(c, env h c)]"
    "success res1 = (\<not> isFailed (env h c))"
    "indexError (c, env h c) = (if success res1 then [] else [(field ''key'' idx, error res1)])"
    by (rule createIndex_cases)
  let ?e = "(c, env h c)"
  show ?case
  proof (cases "success res1")
    case False
    with Cons.prems ci have
      "createIndexesLoop env db coll idxs
         (acc\<lparr>errorCount := errorCount acc + 1,
              errors := errors acc @ [(field ''key'' idx, error res1)]\<rparr>) h1 = Some (r, h')"
      by simp
    from Cons.IH [OF this] obtain l where
      l: "h' = h1 @ l" "\<forall>(c, x) \<in> set l. isListing c \<or> isSleep c \<or> isCreateIndex c"
         "\<forall>res. r = Inr res \<longrightarrow>
            errors res = (errors acc @ [(field ''key'' idx, error res1)]) @ failedIndexErrors l"
      by auto
    with c False show ?thesis
      by (intro exI [of _ "?e # l"]) auto
  next
    case True
    with Cons.prems ci have run:
      "andThen (waitForIndex env db coll (field ''key'' idx) 60)
         (\<lambda>_. createIndexesLoop env db coll idxs (acc\<lparr>successCount := successCount acc + 1\<rparr>))
         h1 = Some (r, h')"
      by simp
    from run show ?thesis
    proof (cases rule: andThenE)
      case (thrown e)
      from thrown(1) obtain lw where
        lw: "h' = h1 @ lw" "\<forall>(c, x) \<in> set lw. isListing c \<or> isSleep c"
        by (rule waitForIndex_quiet)
      from lw thrown(2) c show ?thesis
        by (intro exI [of _ "?e # lw"]) auto
    next
      case (went b h2)
      from went(1) obtain lw where
        lw: "h2 = h1 @ lw" "\<forall>(c, x) \<in> set lw. isListing c \<or> isSleep c"
        by (rule waitForIndex_quiet)
      from Cons.IH [OF went(2)] obtain l where
        l: "h' = h2 @ l" "\<forall>(c, x) \<in> set l. isListing c \<or> isSleep c \<or> isCreateIndex c"
           "\<forall>res. r = Inr res \<longrightarrow> errors res = errors acc @ failedIndexErrors l"
        by auto
      from quiet_facts(3) [OF lw(2)] lw l c True show ?thesis
        by (intro exI [of _ "?e # lw @ l"]) auto
    qed
  qed
qed

lemma createAttributeCall_known:
  "createAttributeCall a = None \<longleftrightarrow> \<not> knownType a"
proof (cases "field ''type'' a")
  case None
  then show ?thesis by (simp add: createAttributeCall_def knownType_def Let_def)
next
  case (Some j)
  show ?thesis
  proof (cases j)
    case (JStr t)
    with Some show ?thesis
      by (simp add: createAttributeCall_def knownType_def knownTypes_def Let_def)
  qed (use Some in \<open>simp_all add: createAttributeCall_def knownType_def Let_def\<close>)
qed

lemma knownType_cases:
  assumes "knownType a"
  obtains t where "field ''type'' a = Some (JStr t)" "t \<in> set knownTypes"
proof (cases "field ''type'' a")
  case None
  with assms show ?thesis by (simp add: knownType_def)
next
  case (Some j)
  with assms that show ?thesis by (cases j) (simp_all add: knownType_def)
qed

lemma creator_table:
  "\<forall>t \<in> set knownTypes. \<forall>a. field ''type'' a = Some (JStr t) \<longrightarrow>
     map_option fst (createAttributeCall a) = Some (creatorOf (Some (JStr t)))"
  unfolding knownTypes_def
  by (simp add: createAttributeCall_def creatorOf_def Let_def)

lemma createAttributeCall_creator:
  assumes "createAttributeCall a = Some (sdkMethod, args)"
  shows "sdkMethod = creatorOf (field ''type'' a)"
proof -
  from assms have "knownType a" using createAttributeCall_known [of a] by simp
  then obtain t where t: "field ''type'' a = Some (JStr t)" "t \<in> set knownTypes"
    by (rule knownType_cases)
  from creator_table t have
    "map_option fst (createAttributeCall a) = Some (creatorOf (Some (JStr t)))" by blast
  with assms t(1) show ?thesis by simp
qed

lemma createAttributes_if:
  "(if attributes \<noteq> [] then createAttributes env db cid attributes h else Some (Inr emptyBatch, h))
     = createAttributes env db cid attributes h"
  by (cases attributes) (simp_all add: createAttributes_def emptyBatch_def ret_def)

lemma createIndexes_if:
  "(if indexes \<noteq> [] then createIndexes env db cid indexes h else Some (Inr emptyBatch, h))
     = createIndexes env db cid indexes h"
  by (cases indexes) (simp_all add: createIndexes_def emptyBatch_def ret_def)

lemma cloneCollectionStructure_cases:
  fixes env src dst coll h
  defines "c0 \<equiv> CreateCollection dst (field ''$id'' coll) (field ''name'' coll)
                   (field ''$permissions'' coll) (field ''documentSecurity'' coll)
                   (field ''enabled'' coll)"
  defines "h1 \<equiv> h @ [(c0, env h c0)]"
  assumes run: "cloneCollectionStructure env src dst coll h = Some (res, h')"
  obtains
    (rejected) "isFailed (env h c0)" "h' = h1" "\<not> success res"
  | (attrFetch) e where "\<not> isFailed (env h c0)"
      "fetchAllAttributes env src (field ''$id'' coll) h1 = Some (Inl e, h')" "\<not> success res"
  | (attrCreate) attributes h2 e where "\<not> isFailed (env h c0)"
      "fetchAllAttributes env src (field ''$id'' coll) h1 = Some (Inr attributes, h2)"
      "createAttributes env dst (field ''$id'' coll) attributes h2 = Some (Inl e, h')" "\<not> success res"
  | (idxFetch) attributes h2 attrResult h3 e where "\<not> isFailed (env h c0)"
      "fetchAllAttributes env src (field ''$id'' coll) h1 = Some (Inr attributes, h2)"
      "createAttributes env dst (field ''$id'' coll) attributes h2 = Some (Inr attrResult, h3)"
      "fetchAllIndexes env src (field ''$id'' coll) h3 = Some (Inl e, h')" "\<not> success res"
  | (idxCreate) attributes h2 attrResult h3 indexes h4 e where "\<not> isFailed (env h c0)"
      "fetchAllAttributes env src (field ''$id'' coll) h1 = Some (Inr attributes, h2)"
      "createAttributes env dst (field ''$id'' coll) attributes h2 = Some (Inr attrResult, h3)"
      "fetchAllIndexes env src (field ''$id'' coll) h3 = Some (Inr indexes, h4)"
      "createIndexes env dst (field ''$id'' coll) indexes h4 = Some (Inl e, h')" "\<not> success res"
  | (finished) attributes h2 attrResult h3 indexes h4 idxResult where "\<not> isFailed (env h c0)"
      "fetchAllAttributes env src (field ''$id'' coll) h1 = Some (Inr attributes, h2)"
      "createAttributes env dst (field ''$id'' coll) attributes h2 = Some (Inr attrResult, h3)"
      "fetchAllIndexes env src (field ''$id'' coll) h3 = Some (Inr indexes, h4)"
      "createIndexes env dst (field ''$id'' coll) indexes h4 = Some (Inr idxResult, h')"
      "success res = (errorCount attrResult = 0)" "indexErrors res = errors idxResult"
proof (cases "isFailed (env h c0)")
  case True
  then obtain m where "env h c0 = Failed m" by (cases "env h c0") auto
  with run have "h' = h1" "\<not> success res"
    by (auto simp: cloneCollectionStructure_def Let_def caught_def c0_def h1_def)
  with True rejected show ?thesis by blast
next
  case ok: False
  from run have stage1:
    "(case fetchAllAttributes env src (field ''$id'' coll) h1 of
        None \<Rightarrow> None
      | Some (Inl e, h2) \<Rightarrow> Some (caught e emptyBatch emptyBatch, h2)
      | Some (Inr attributes, h2) \<Rightarrow>
         (case (if attributes \<noteq> [] then createAttributes env dst (field ''$id'' coll) attributes h2
                else Some (Inr emptyBatch, h2)) of
            None \<Rightarrow> None
          | Some (Inl e, h3) \<Rightarrow> Some (caught e emptyBatch emptyBatch, h3)
          | Some (Inr attrResult, h3) \<Rightarrow>
             (case fetchAllIndexes env src (field ''$id'' coll) h3 of
                None \<Rightarrow> None
              | Some (Inl e, h4) \<Rightarrow> Some (caught e attrResult emptyBatch, h4)
              | Some (Inr indexes, h4) \<Rightarrow>
                 (case (if indexes \<noteq> [] then createIndexes env dst (field ''$id'' coll) indexes h4
                        else Some (Inr emptyBatch, h4)) of
                    None \<Rightarrow> None
                  | Some (Inl e, h5) \<Rightarrow> Some (caught e attrResult emptyBatch, h5)
                  | Some (Inr idxResult, h5) \<Rightarrow>
                      (if errorCount attrResult > 0 then
                         Some (\<lparr>success = False,
                                error = Some (natToString (errorCount attrResult)
                                              @ '' attribute(s) failed to create''),
                                attributeErrors = errors attrResult,
                                indexErrors = errors idxResult\<rparr>, h5)
                       else
                         Some (\<lparr>success = True, error = None, attributeErrors = [],
                                indexErrors = errors idxResult\<rparr>, h5)))))) = Some (res, h')"
    using ok
    by (cases "env h c0")
       (simp_all add: cloneCollectionStructure_def Let_def c0_def h1_def)
  show ?thesis
  proof (cases "fetchAllAttributes env src (field ''$id'' coll) h1")
    case None
    with stage1 show ?thesis by simp
  next
    case (Some p1)
    obtain r1 h2 where p1: "p1 = (r1, h2)" by (cases p1)
    show ?thesis
    proof (cases r1)
      case (Inl e)
      with stage1 Some p1 ok attrFetch show ?thesis by (auto simp: caught_def)
    next
      case (Inr attributes)
      note s1 = Some [unfolded p1 Inr]
      from stage1 s1 have stage2:
        "(case createAttributes env dst (field ''$id'' coll) attributes h2 of
            None \<Rightarrow> None
          | Some (Inl e, h3) \<Rightarrow> Some (caught e emptyBatch emptyBatch, h3)
          | Some (Inr attrResult, h3) \<Rightarrow>
             (case fetchAllIndexes env src (field ''$id'' coll) h3 of
                None \<Rightarrow> None
              | Some (Inl e, h4) \<Rightarrow> Some (caught e attrResult emptyBatch, h4)
              | Some (Inr indexes, h4) \<Rightarrow>
                 (case (if indexes \<noteq> [] then createIndexes env dst (field ''$id'' coll) indexes h4
                        else Some (Inr emptyBatch, h4)) of
                    None \<Rightarrow> None
                  | Some (Inl e, h5) \<Rightarrow> Some (caught e attrResult emptyBatch, h5)
                  | Some (Inr idxResult, h5) \<Rightarrow>
                      (if errorCount attrResult > 0 then
                         Some (\<lparr>success = False,
                                error = Some (natToString (errorCount attrResult)
                                              @ '' attribute(s) failed to create''),
                                attributeErrors = errors attrResult,
                                indexErrors = errors idxResult\<rparr>, h5)
                       else
                         Some (\<lparr>success = True, error = None, attributeErrors = [],
                                indexErrors = errors idxResult\<rparr>, h5))))) = Some (res, h')"
        by (simp add: createAttributes_if)
      show ?thesis
      proof (cases "createAttributes env dst (field ''$id'' coll) attributes h2")
        case None
        with stage2 show ?thesis by simp
      next
        case (Some p2)
        obtain r2 h3 where p2: "p2 = (r2, h3)" by (cases p2)
        show ?thesis
        proof (cases r2)
          case (Inl e)
          with stage2 s1 Some p2 ok attrCreate show ?thesis by (auto simp: caught_def)
        next
          case (Inr attrResult)
          note s2 = Some [unfolded p2 Inr]
          show ?thesis
          proof (cases "fetchAllIndexes env src (field ''$id'' coll) h3")
            case None
            with stage2 s2 show ?thesis by simp
          next
            case (Some p3)
            obtain r3 h4 where p3: "p3 = (r3, h4)" by (cases p3)
            show ?thesis
            proof (cases r3)
              case (Inl e)
              with stage2 s1 s2 Some p3 ok idxFetch show ?thesis by (auto simp: caught_def)
            next
              case (Inr indexes)
              note s3 = Some [unfolded p3 Inr]
              from stage2 s2 s3 have stage4:
                "(case createIndexes env dst (field ''$id'' coll) indexes h4 of
                    None \<Rightarrow> None
                  | Some (Inl e, h5) \<Rightarrow> Some (caught e attrResult emptyBatch, h5)
                  | Some (Inr idxResult, h5) \<Rightarrow>
                      (if errorCount attrResult > 0 then
                         Some (\<lparr>success = False,
                                error = Some (natToString (errorCount attrResult)
                                              @ '' attribute(s) failed to create''),
                                attributeErrors = errors attrResult,
                                indexErrors = errors idxResult\<rparr>, h5)
                       else
                         Some (\<lparr>success = True, error = None, attributeErrors = [],
                                indexErrors = errors idxResult\<rparr>, h5))) = Some (res, h')"
                by (simp add: createIndexes_if)
              show ?thesis
              proof (cases "createIndexes env dst (field ''$id'' coll) indexes h4")
                case None
                with stage4 show ?thesis by simp
              next
                case (Some p4)
                obtain r4 h5 where p4: "p4 = (r4, h5)" by (cases p4)
                show ?thesis
                proof (cases r4)
                  case (Inl e)
                  with stage4 s1 s2 s3 Some p4 ok idxCreate show ?thesis
                    by (auto simp: caught_def)
                next
                  case (Inr idxResult)
                  with stage4 Some p4 have
                    "h' = h5" "success res = (errorCount attrResult = 0)"
                    "indexErrors res = errors idxResult"
                    by (auto split: if_splits)
                  with s1 s2 s3 Some p4 Inr ok show ?thesis
                    by (intro finished [of attributes h2 attrResult h3 indexes h4 idxResult]) simp_all
                qed
              qed
            qed
          qed
        qed
      qed
    qed
  qed
qed




lemma createAttributes_log:
  assumes "createAttributes env db coll attrs h = Some (r, h')"
  obtains l rest where "h' = h @ l"
    "\<forall>(c, x) \<in> set l. isListing c \<or> isSleep c \<or> isCreateAttribute c"
    "expectedSubmissions db coll attrs = attributeSubmissions l @ rest"
    "\<And>res. r = Inr res \<Longrightarrow> rest = []"
    "\<And>res. r = Inr res \<Longrightarrow> length (attributeFailures l) \<le> errorCount res"
proof -
  from createAttributesLoop_log [OF assms [unfolded createAttributes_def]]
  obtain l rest where "h' = h @ l"
    "\<forall>(c, x) \<in> set l. isListing c \<or> isSleep c \<or> isCreateAttribute c"
    "expectedSubmissions db coll attrs = attributeSubmissions l @ rest"
    "\<forall>res. r = Inr res \<longrightarrow> rest = []"
    "\<forall>res. r = Inr res \<longrightarrow> length (attributeFailures l) \<le> errorCount res"
    by auto
  then show ?thesis by (intro that [of l rest]) auto
qed

lemma createIndexes_log:
  assumes "createIndexes env db coll idxs h = Some (r, h')"
  obtains l where "h' = h @ l"
    "\<forall>(c, x) \<in> set l. isListing c \<or> isSleep c \<or> isCreateIndex c"
    "\<And>res. r = Inr res \<Longrightarrow> errors res = failedIndexErrors l"
proof -
  from createIndexesLoop_log [OF assms [unfolded createIndexes_def]]
  obtain l where "h' = h @ l"
    "\<forall>(c, x) \<in> set l. isListing c \<or> isSleep c \<or> isCreateIndex c"
    "\<forall>res. r = Inr res \<longrightarrow> errors res = failedIndexErrors l"
    by auto
  then show ?thesis by (intro that [of l]) auto
qed



lemma listingsSoFar_simps [simp]:
  "listingsSoFar [] = 0"
  "listingsSoFar (h @ l) = listingsSoFar h + listingsSoFar l"
  "listingsSoFar ((c, r) # l) = (if isListing c then Suc (listingsSoFar l) else listingsSoFar l)"
  by (simp_all add: listingsSoFar_def)

lemma sleepsIn_simps [simp]:
  "sleepsIn [] = 0"
  "sleepsIn (h @ l) = sleepsIn h + sleepsIn l"
  "sleepsIn ((c, r) # l) = (if isSleep c then Suc (sleepsIn l) else sleepsIn l)"
  by (simp_all add: sleepsIn_def)

lemma fetchLoop_scripted:
  assumes "length (listing (listingsSoFar h)) < 100" "\<And>cur. isListing (list 100 cur)"
  shows "fetchLoop (scripted listing) list k 100 [] None h
           = Some (Inr (listing (listingsSoFar h)),
                   h @ [(list 100 None, Listed (listing (listingsSoFar h)))])"
  using assms by (subst fetchLoop.simps) (simp add: scripted_def)

lemma pollResult_iff:
  "pollResult listing key n left = (\<exists>i<left. keyAvailable key (listing (n + i)))"
proof (induction left arbitrary: n)
  case 0
  show ?case by simp
next
  case (Suc left)
  have "(\<exists>i<Suc left. keyAvailable key (listing (n + i)))
          = (keyAvailable key (listing n) \<or> (\<exists>i<left. keyAvailable key (listing (Suc n + i))))"
  proof
    assume "\<exists>i<Suc left. keyAvailable key (listing (n + i))"
    then obtain i where i: "i < Suc left" "keyAvailable key (listing (n + i))" by blast
    show "keyAvailable key (listing n) \<or> (\<exists>i<left. keyAvailable key (listing (Suc n + i)))"
    proof (cases i)
      case 0
      with i show ?thesis by simp
    next
      case (Suc j)
      with i have "j < left" "keyAvailable key (listing (Suc n + j))" by simp_all
      then show ?thesis by blast
    qed
  next
    assume "keyAvailable key (listing n) \<or> (\<exists>i<left. keyAvailable key (listing (Suc n + i)))"
    then show "\<exists>i<Suc left. keyAvailable key (listing (n + i))"
    proof
      assume "keyAvailable key (listing n)"
      then have "0 < Suc left \<and> keyAvailable key (listing (n + 0))" by simp
      then show ?thesis by blast
    next
      assume "\<exists>i<left. keyAvailable key (listing (Suc n + i))"
      then obtain j where "j < left" "keyAvailable key (listing (Suc n + j))" by blast
      then have "Suc j < Suc left \<and> keyAvailable key (listing (n + Suc j))" by simp
      then show ?thesis by blast
    qed
  qed
  with Suc show ?case by simp
qed

lemma pollLog_counts:
  "isListing c \<Longrightarrow>
   listingsSoFar (pollLog c listing key n left) \<le> left \<and>
   sleepsIn (pollLog c listing key n left) \<le> left \<and>
   (\<forall>(c', r) \<in> set (pollLog c listing key n left). c' = c \<or> c' = Sleep 1000) \<and>
   (\<not> pollResult listing key n left \<longrightarrow>
      listingsSoFar (pollLog c listing key n left) = left \<and>
      sleepsIn (pollLog c listing key n left) = left) \<and>
   (pollResult listing key n left \<longrightarrow>
      Suc (sleepsIn (pollLog c listing key n left)) = listingsSoFar (pollLog c listing key n left))"
proof (induction left arbitrary: n)
  case 0
  show ?case by simp
next
  case (Suc left)
  from Suc.IH [OF Suc.prems, of "Suc n"] Suc.prems show ?case
    by (cases c) (auto simp: isSleep.simps)
qed

lemma waitForAttribute_scripted:
  assumes "\<forall>i. length (listing i) < 100"
  shows "waitForAttribute (scripted listing) db coll key left h
           = Some (Inr (pollResult listing key (listingsSoFar h) left),
                   h @ pollLog (ListAttributes db coll 100 None) listing key (listingsSoFar h) left)"
proof (induction left arbitrary: h)
  case 0
  show ?case by (simp add: ret_def)
next
  case (Suc left)
  let ?n = "listingsSoFar h"
  let ?h1 = "h @ [(ListAttributes db coll 100 None, Listed (listing ?n))]"
  have fetch: "fetchAllAttributes (scripted listing) db coll h = Some (Inr (listing ?n), ?h1)"
    unfolding fetchAllAttributes_def using assms by (intro fetchLoop_scripted) simp_all
  show ?case
  proof (cases "keyAvailable key (listing ?n)")
    case True
    then show ?thesis
      by (simp add: andThen_def fetch keyAvailable_def ret_def)
  next
    case False
    let ?h2 = "?h1 @ [(Sleep 1000, Done)]"
    have sl: "sleep (scripted listing) 1000 ?h1 = Some (Inr (), ?h2)"
      by (simp add: sleep_def scripted_def)
    have "listingsSoFar ?h2 = Suc ?n" by simp
    with Suc.IH [of ?h2] False show ?thesis
      by (simp add: andThen_def fetch sl keyAvailable_def)
  qed
qed

lemma waitForIndex_scripted:
  assumes "\<forall>i. length (listing i) < 100"
  shows "waitForIndex (scripted listing) db coll key left h
           = Some (Inr (pollResult listing key (listingsSoFar h) left),
                   h @ pollLog (ListIndexes db coll 100 None) listing key (listingsSoFar h) left)"
proof (induction left arbitrary: h)
  case 0
  show ?case by (simp add: ret_def)
next
  case (Suc left)
  let ?n = "listingsSoFar h"
  let ?h1 = "h @ [(ListIndexes db coll 100 None, Listed (listing ?n))]"
  have fetch: "fetchAllIndexes (scripted listing) db coll h = Some (Inr (listing ?n), ?h1)"
    unfolding fetchAllIndexes_def using assms by (intro fetchLoop_scripted) simp_all
  show ?case
  proof (cases "keyAvailable key (listing ?n)")
    case True
    then show ?thesis
      by (simp add: andThen_def fetch keyAvailable_def ret_def)
  next
    case False
    let ?h2 = "?h1 @ [(Sleep 1000, Done)]"
    have sl: "sleep (scripted listing) 1000 ?h1 = Some (Inr (), ?h2)"
      by (simp add: sleep_def scripted_def)
    have "listingsSoFar ?h2 = Suc ?n" by simp
    with Suc.IH [of ?h2] False show ?thesis
      by (simp add: andThen_def fetch sl keyAvailable_def)
  qed
qed

lemma expectedSubmissions_submittable:
  "expectedSubmissions db coll (a # attrs) =
     (if submittable a then
        CreateAttribute (creatorOf (field ''type'' a)) db coll
          (case createAttributeCall a of Some (sdkMethod, args) \<Rightarrow> args | None \<Rightarrow> [])
          # expectedSubmissions db coll attrs
      else expectedSubmissions db coll attrs)"
proof (cases "createAttributeCall a")
  case None
  then show ?thesis
    by (simp add: expectedSubmissions_Cons submittable_def createAttributeCall_known [symmetric])
next
  case (Some p)
  obtain sdkMethod args where p: "p = (sdkMethod, args)" by (cases p)
  from Some p have "knownType a" "sdkMethod = creatorOf (field ''type'' a)"
    using createAttributeCall_known [of a] createAttributeCall_creator [of a sdkMethod args]
    by simp_all
  with Some p show ?thesis
    by (simp add: expectedSubmissions_Cons submittable_def)
qed

lemma expectedSubmissions_methods:
  "map sdkMethodOf (expectedSubmissions db coll attrs)
     = map (\<lambda>a. creatorOf (field ''type'' a)) (filter submittable attrs)"
  by (induction attrs) (simp_all add: expectedSubmissions_submittable)

lemma expectedSubmissions_map:
  "expectedSubmissions db coll attrs = map (submission db coll) (filter submittable attrs)"
  by (induction attrs) (simp_all add: expectedSubmissions_submittable submission_def)

lemma expectedSubmissions_count:
  "length (expectedSubmissions db coll attrs) = length (filter submittable attrs)"
  using arg_cong [OF expectedSubmissions_methods [of db coll attrs], of length] by simp

lemma createAttributesLoop_scripted:
  assumes "\<forall>i. length (listing i) < 100"
  shows "createAttributesLoop (scripted listing) db coll attrs acc h
           = Some (Inr \<lparr>successCount = successCount acc + length (filter submittable attrs),
                        errorCount = errorCount acc + length (filter unknownType attrs),
                        errors = errors acc @
                          map (\<lambda>a. (field ''key'' a, Some (unknownTypeMessage (field ''type'' a))))
                              (filter unknownType attrs)\<rparr>,
                   h @ attributesLog listing db coll attrs (listingsSoFar h))"
    (is "_ = Some (Inr (?final attrs acc), _)")
proof (induction attrs arbitrary: acc h)
  case Nil
  show ?case by (simp add: ret_def)
next
  case (Cons a attrs)
  show ?case
  proof (cases "isChildRelationship a")
    case True
    then have "?final (a # attrs) acc = ?final attrs acc"
      by (simp add: unknownType_def submittable_def)
    with Cons.IH [of acc h] True show ?thesis by (simp add: submittable_def)
  next
    case False
    show ?thesis
    proof (cases "createAttributeCall a")
      case None
      then have unknown: "\<not> knownType a" by (simp add: createAttributeCall_known)
      let ?acc = "acc\<lparr>errorCount := errorCount acc + 1,
                      errors := errors acc @
                        [(field ''key'' a, Some (unknownTypeMessage (field ''type'' a)))]\<rparr>"
      from None have ca: "createAttribute (scripted listing) db coll a h
          = (\<lparr>success = False, error = Some (unknownTypeMessage (field ''type'' a))\<rparr>, h)"
        by (simp add: createAttribute_def)
      from False ca have step:
        "createAttributesLoop (scripted listing) db coll (a # attrs) acc h
           = createAttributesLoop (scripted listing) db coll attrs ?acc h"
        by simp
      from False unknown have fin: "?final (a # attrs) acc = ?final attrs ?acc"
        by (simp add: unknownType_def submittable_def)
      from False unknown have lg:
        "attributesLog listing db coll (a # attrs) (listingsSoFar h)
           = attributesLog listing db coll attrs (listingsSoFar h)"
        by (simp add: submittable_def)
      from Cons.IH [of ?acc h] show ?thesis unfolding step fin lg .
    next
      case (Some p)
      obtain sdkMethod args where p: "p = (sdkMethod, args)" by (cases p)
      from Some p have known: "knownType a" and m: "sdkMethod = creatorOf (field ''type'' a)"
        using createAttributeCall_known [of a] createAttributeCall_creator [of a sdkMethod args]
        by simp_all
      let ?c = "CreateAttribute sdkMethod db coll args"
      let ?h1 = "h @ [(?c, Done)]"
      let ?acc = "acc\<lparr>successCount := successCount acc + 1\<rparr>"
      from Some p have ca: "createAttribute (scripted listing) db coll a h
          = (\<lparr>success = True, error = None\<rparr>, ?h1)"
        by (simp add: createAttribute_def scripted_def)
      let ?lw = "pollLog (ListAttributes db coll 100 None) listing (field ''key'' a)
                   (listingsSoFar h) 30"
      have n: "listingsSoFar ?h1 = listingsSoFar h" by simp
      note w = waitForAttribute_scripted [OF assms, of db coll "field ''key'' a" 30 ?h1,
          unfolded n]
      from False ca w have step:
        "createAttributesLoop (scripted listing) db coll (a # attrs) acc h
           = createAttributesLoop (scripted listing) db coll attrs ?acc (?h1 @ ?lw)"
        by (simp add: andThen_def)
      from False known have fin: "?final (a # attrs) acc = ?final attrs ?acc"
        by (simp add: unknownType_def submittable_def)
      from False known Some p m have lg:
        "h @ attributesLog listing db coll (a # attrs) (listingsSoFar h)
           = (?h1 @ ?lw) @ attributesLog listing db coll attrs (listingsSoFar (?h1 @ ?lw))"
        by (simp add: submittable_def)
      from Cons.IH [of ?acc "?h1 @ ?lw"] show ?thesis unfolding step fin lg .
    qed
  qed
qed

lemma createIndexesLoop_scripted:
  assumes "\<forall>i. length (listing i) < 100"
  shows "createIndexesLoop (scripted listing) db coll idxs acc h
           = Some (Inr (acc\<lparr>successCount := successCount acc + length idxs\<rparr>),
                   h @ indexesLog listing db coll idxs (listingsSoFar h))"
proof (induction idxs arbitrary: acc h)
  case Nil
  show ?case by (simp add: ret_def)
next
  case (Cons idx idxs)
  let ?c = "CreateIndex db coll (field ''key'' idx) (field ''type'' idx)
              (field ''attributes'' idx) (orElse (field ''orders'' idx) (JArr []))"
  let ?h1 = "h @ [(?c, Done)]"
  let ?acc = "acc\<lparr>successCount := successCount acc + 1\<rparr>"
  have ci: "createIndex (scripted listing) db coll idx h = (\<lparr>success = True, error = None\<rparr>, ?h1)"
    by (simp add: createIndex_def scripted_def)
  let ?lw = "pollLog (ListIndexes db coll 100 None) listing (field ''key'' idx)
               (listingsSoFar h) 60"
  have n: "listingsSoFar ?h1 = listingsSoFar h" by simp
  note w = waitForIndex_scripted [OF assms, of db coll "field ''key'' idx" 60 ?h1, unfolded n]
  from ci w have step:
    "createIndexesLoop (scripted listing) db coll (idx # idxs) acc h
       = createIndexesLoop (scripted listing) db coll idxs ?acc (?h1 @ ?lw)"
    by (simp add: andThen_def)
  have fin: "acc\<lparr>successCount := successCount acc + length (idx # idxs)\<rparr>
               = ?acc\<lparr>successCount := successCount ?acc + length idxs\<rparr>"
    by simp
  have lg: "h @ indexesLog listing db coll (idx # idxs) (listingsSoFar h)
              = (?h1 @ ?lw) @ indexesLog listing db coll idxs (listingsSoFar (?h1 @ ?lw))"
    by simp
  from Cons.IH [of ?acc "?h1 @ ?lw"] show ?case unfolding step fin lg .
qed

subsection \<open>The diff engine\<close>

lemma strictEquals_value:
  "identifierValue v \<Longrightarrow> strictEquals e (Some v) = (e = Some v)"
  by (cases "(e, Some v)" rule: strictEquals.cases) (cases v; auto)+

lemma strictEquals_string: "strictEquals e (Some (JStr s)) = (e = Some (JStr s))"
  by (cases "(e, Some (JStr s))" rule: strictEquals.cases) auto

lemma strictEquals_imp_eq: "strictEquals e v \<Longrightarrow> e = v"
  by (cases "(e, v)" rule: strictEquals.cases) auto

lemma setHas_setAdd: "setHas (setAdd s k) v = (setHas s v \<or> strictEquals k v)"
  by (auto simp: setAdd_def setHas_def dest: strictEquals_imp_eq)

lemma set_setAdd: "set (setAdd s k) = insert k (set s)"
  by (auto simp: setAdd_def setHas_def dest: strictEquals_imp_eq)

lemma loop_documentKey:
  "buildExistingRecordSetLoop stringify idf docs s =
     fold (\<lambda>doc acc. setAdd acc (documentKey stringify idf doc)) docs s"
  by (induction docs arbitrary: s) (simp_all add: documentKey_def)

lemma set_loop:
  "set (buildExistingRecordSetLoop stringify idf docs s) = set s \<union> documentKey stringify idf ` set docs"
  unfolding loop_documentKey
  by (induction docs arbitrary: s) (auto simp: set_setAdd)

lemma setHas_loop:
  "setHas (buildExistingRecordSetLoop stringify idf docs s) v =
     (setHas s v \<or> (\<exists>doc \<in> set docs. strictEquals (documentKey stringify idf doc) v))"
  unfolding loop_documentKey
  by (induction docs arbitrary: s) (auto simp: setHas_setAdd)

lemma isDocumentMissing_documentKey:
  "isDocumentMissing stringify doc s idf = (\<not> setHas s (documentKey stringify idf doc))"
  by (simp add: isDocumentMissing_def documentKey_def)

lemma documentKey_identifier:
  "field f doc = Some v \<Longrightarrow> identifierValue v \<Longrightarrow> documentKey stringify (Some f) doc = Some v"
  by (cases v) (auto simp: documentKey_def identifierOf_def)

lemma documentKey_fallback:
  "\<not> truthy (field f doc) \<Longrightarrow>
   documentKey stringify (Some f) doc = Some (JStr (stringify (JObj (cleanDocumentData doc))))"
  by (simp add: documentKey_def identifierOf_def)

lemma buildExistingRecordSet_result:
  assumes "fetchAllDocuments env batchSize destDbId collectionId h = Some (Inr existingDocs, h')"
  shows "buildExistingRecordSet env stringify batchSize destDbId collectionId h
           = Some (Inr (buildExistingRecordSetLoop stringify (getUniqueIdentifierField collectionId)
                          existingDocs [],
                        getUniqueIdentifierField collectionId), h')"
  using assms by (simp add: buildExistingRecordSet_def andThen_def Let_def ret_def)

subsection \<open>The cache file in a run\<close>


lemma stages_schema:
  "\<forall>(c, x) \<in> set l. schemaCall c \<Longrightarrow> stages m d Fetching l = Some Fetching"
  by (induction l) (auto simp: schemaCall_def split: call.splits)

lemma stages_snapshot:
  "\<forall>(c, x) \<in> set l. snapshotCall m d c \<Longrightarrow> stages m d Snapshot l = Some Snapshot"
  by (induction l) (auto split: call.splits)

lemma cacheFile_append: "cacheFile (h @ l) = fold cacheStep l (cacheFile h)"
  by (simp add: cacheFile_def)

lemma fold_cacheStep_schema:
  "\<forall>(c, x) \<in> set l. schemaCall c \<Longrightarrow> fold cacheStep l v = v"
  by (induction l arbitrary: v) (auto simp: cacheStep_def schemaCall_def split: call.splits)

lemma fold_cacheStep_snapshot:
  "\<forall>(c, x) \<in> set l. snapshotCall m d c \<Longrightarrow> fold cacheStep l v = v"
  by (induction l arbitrary: v) (auto simp: cacheStep_def split: call.splits)

lemma cloneCollectionStructure_footprint:
  assumes "cloneCollectionStructure env src dst coll h = Some (res, h')"
  shows "\<exists>l. h' = h @ l \<and> (\<forall>(c, x) \<in> set l. schemaCall c)"
proof -
  let ?c0 = "CreateCollection dst (field ''$id'' coll) (field ''name'' coll)
               (field ''$permissions'' coll) (field ''documentSecurity'' coll)
               (field ''enabled'' coll)"
  let ?h1 = "h @ [(?c0, env h ?c0)]"
  have listing: "emitsOnly (fetchAllAttributes env src (field ''$id'' coll)) schemaCall"
       "emitsOnly (fetchAllIndexes env src (field ''$id'' coll)) schemaCall"
    by (rule emitsOnly_fetchAllAttributes emitsOnly_fetchAllIndexes, simp add: schemaCall_def)+
  have attrs: "\<exists>l. g' = g @ l \<and> (\<forall>(c, x) \<in> set l. schemaCall c)"
    if "createAttributes env dst (field ''$id'' coll) as g = Some (r, g')" for as g r g'
    using that by (rule createAttributes_log) (auto simp: schemaCall_def)
  have idxs: "\<exists>l. g' = g @ l \<and> (\<forall>(c, x) \<in> set l. schemaCall c)"
    if "createIndexes env dst (field ''$id'' coll) is g = Some (r, g')" for "is" g r g'
    using that by (rule createIndexes_log) (auto simp: schemaCall_def)
  have first: "\<exists>l. ?h1 = h @ l \<and> (\<forall>(c, x) \<in> set l. schemaCall c)"
    by (simp add: schemaCall_def)
  have step: "\<exists>l. c = a @ l \<and> (\<forall>(c, x) \<in> set l. schemaCall c)"
    if "\<exists>l. b = a @ l \<and> (\<forall>(c, x) \<in> set l. schemaCall c)"
       "\<exists>l. c = b @ l \<and> (\<forall>(c, x) \<in> set l. schemaCall c)" for a b c :: history
  proof -
    from that obtain l1 l2 where "b = a @ l1" "\<forall>(c, x) \<in> set l1. schemaCall c"
      "c = b @ l2" "\<forall>(c, x) \<in> set l2. schemaCall c" by blast
    then show ?thesis by (intro exI [of _ "l1 @ l2"]) auto
  qed
  from assms show ?thesis
  proof (cases rule: cloneCollectionStructure_cases)
    case rejected
    with first show ?thesis by simp
  next
    case (attrFetch e)
    from step [OF first emitsOnlyD [OF listing(1) attrFetch(2)]] show ?thesis .
  next
    case (attrCreate attributes h2 e)
    from step [OF step [OF first emitsOnlyD [OF listing(1) attrCreate(2)]] attrs [OF attrCreate(3)]]
    show ?thesis .
  next
    case (idxFetch attributes h2 attrResult h3 e)
    from step [OF step [OF step [OF first emitsOnlyD [OF listing(1) idxFetch(2)]]
                 attrs [OF idxFetch(3)]] emitsOnlyD [OF listing(2) idxFetch(4)]]
    show ?thesis .
  next
    case (idxCreate attributes h2 attrResult h3 indexes h4 e)
    from step [OF step [OF step [OF step [OF first emitsOnlyD [OF listing(1) idxCreate(2)]]
                 attrs [OF idxCreate(3)]] emitsOnlyD [OF listing(2) idxCreate(4)]]
                 idxs [OF idxCreate(5)]]
    show ?thesis .
  next
    case (finished attributes h2 attrResult h3 indexes h4 idxResult)
    from step [OF step [OF step [OF step [OF first emitsOnlyD [OF listing(1) finished(2)]]
                 attrs [OF finished(3)]] emitsOnlyD [OF listing(2) finished(4)]]
                 idxs [OF finished(5)]]
    show ?thesis .
  qed
qed

lemma emitsOnly_substringOf: "emitsOnly (substringOf name) P"
  unfolding substringOf_def by (auto split: option.splits json.splits)

lemma emitsOnly_cloneStructures:
  "emitsOnly (cloneStructures env src dst cs totals) schemaCall"
proof (induction cs arbitrary: totals)
  case Nil
  show ?case by auto
next
  case (Cons c cs)
  show ?case
    unfolding cloneStructures.simps
  proof (rule emitsOnly_andThen [OF emitsOnly_substringOf], rule emitsOnlyI)
    fix a :: unit and h r h'
    assume run: "(case cloneCollectionStructure env src dst c h of
                    None \<Rightarrow> None
                  | Some (result, h') \<Rightarrow>
                      if success result then
                        cloneStructures env src dst cs
                          (totals\<lparr>collectionsSuccess := collectionsSuccess totals + 1\<rparr>) h'
                      else
                        cloneStructures env src dst cs
                          (totals\<lparr>collectionsFailed := collectionsFailed totals + 1,
                                  collectionErrors :=
                                    collectionErrors totals @ [(field ''name'' c, error result)],
                                  collectionAttributeErrors :=
                                    (if attributeErrors result \<noteq> [] then
                                       collectionAttributeErrors totals
                                         @ [(field ''name'' c, attributeErrors result)]
                                     else collectionAttributeErrors totals)\<rparr>) h') = Some (r, h')"
    then obtain res h1 t where one: "cloneCollectionStructure env src dst c h = Some (res, h1)"
      and rest: "cloneStructures env src dst cs t h1 = Some (r, h')"
      by (auto split: option.splits if_splits)
    from cloneCollectionStructure_footprint [OF one] obtain l1 where
      l1: "h1 = h @ l1" "\<forall>(c, x) \<in> set l1. schemaCall c" by blast
    from emitsOnlyD [OF Cons.IH rest] obtain l2 where
      l2: "h' = h1 @ l2" "\<forall>(c, x) \<in> set l2. schemaCall c" by blast
    from l1 l2 show "\<exists>l. h' = h @ l \<and> (\<forall>(c, x) \<in> set l. schemaCall c)"
      by (intro exI [of _ "l1 @ l2"]) auto
  qed
qed

lemma emitsOnly_fetchCollectionDocs:
  "emitsOnly (fetchCollectionDocs env b src cs acc) schemaCall"
proof (induction cs arbitrary: acc)
  case Nil
  show ?case by auto
next
  case (Cons c cs)
  show ?case
    unfolding fetchCollectionDocs.simps
    by (rule emitsOnly_andThen, rule emitsOnly_fetchAllDocuments, simp add: schemaCall_def,
        rule Cons.IH)
qed

lemma fetchCollectionDocs_entries:
  "fetchCollectionDocs env b src cs acc h = Some (Inr cds, h') \<Longrightarrow>
   \<exists>new. cds = acc @ new \<and> list_all2 (fetchedFor env b src) cs new"
proof (induction cs arbitrary: acc h)
  case Nil
  then show ?case by simp
next
  case (Cons c cs)
  from Cons.prems [unfolded fetchCollectionDocs.simps]
  show ?case
  proof (cases rule: andThenE)
    case (thrown e)
    then show ?thesis by simp
  next
    case (went docs h1)
    from Cons.IH [OF went(2)] obtain new where
      new: "cds = (acc @ [(field ''$id'' c, field ''name'' c, docs)]) @ new"
        "list_all2 (fetchedFor env b src) cs new" by blast
    from went(1) have "fetchedFor env b src c (field ''$id'' c, field ''name'' c, docs)"
      unfolding fetchedFor_def by auto
    with new show ?thesis
      by (intro exI [of _ "(field ''$id'' c, field ''name'' c, docs) # new"]) simp
  qed
qed

lemma those_asObject: "those (map (asObject \<circ> JObj) docs) = Some docs"
  by (induction docs) simp_all

lemma cachedEntry_cacheEntry: "cachedEntry (cacheEntry cd) = Some cd"
proof -
  obtain cid cname docs where cd: "cd = (cid, cname, docs)" by (cases cd)
  show ?thesis
    unfolding cd
    by (cases cid; cases cname)
       (simp_all add: cacheEntry_def jsonObject_def field_def those_asObject)
qed

lemma cachedCollections_cacheData:
  "cachedCollections (cacheData s d t cds) = Some cds"
proof -
  have "those (map (cachedEntry \<circ> cacheEntry) cds) = Some cds"
    by (induction cds) (simp_all add: cachedEntry_cacheEntry)
  then show ?thesis by (simp add: cacheData_def field_def)
qed

lemma cacheFile_snoc: "cacheFile (h @ [ev]) = cacheStep ev (cacheFile h)"
  by (simp add: cacheFile_def)

lemma readCacheFile_cases:
  assumes "readCacheFile env g = Some (r, g')" "cacheFile g = Some data"
  shows "g' = g @ [(ReadCache, env g ReadCache)] \<and>
         (if isFailed (env g ReadCache) then (\<exists>e. r = Inl e) else r = Inr data)"
  using assms
  by (auto simp: readCacheFile_def cacheFile_snoc cacheStep_def elim!: andThenE awaitE
           split: if_splits option.splits)

lemma writeCacheFile_cases:
  assumes "writeCacheFile env data g = Some (r, g')"
  shows "g' = g @ [(WriteCache data, env g (WriteCache data))] \<and>
         (if isFailed (env g (WriteCache data)) then (\<exists>e. r = Inl e) else r = Inr ())"
  using assms
  by (auto simp: writeCacheFile_def elim!: andThenE awaitE split: if_splits)

lemma deleteCacheFile_cases:
  assumes "deleteCacheFile env g = Some (r, g')" "cacheFile g \<noteq> None"
  shows "g' = g @ [(DeleteCache, env g DeleteCache)] \<and>
         (if isFailed (env g DeleteCache) then (\<exists>e. r = Inl e) else r = Inr ())"
  using assms
  by (auto simp: deleteCacheFile_def elim!: andThenE awaitE split: if_splits)

lemma emitsOnly_buildExistingRecordSet:
  "emitsOnly (buildExistingRecordSet env stringify b d cid) (listsFrom d)"
  unfolding buildExistingRecordSet_def Let_def
proof (rule emitsOnly_andThen)
  show "emitsOnly (fetchAllDocuments env b d cid) (listsFrom d)"
    unfolding fetchAllDocuments_def by (rule emitsOnly_fetchLoop) (simp add: listsFrom_def)
qed auto

lemma emitsOnly_buildQueue_missing:
  "emitsOnly (buildQueue env stringify b d True entries acc) (listsFrom d)"
proof (induction entries arbitrary: acc)
  case Nil
  show ?case by auto
next
  case (Cons e entries)
  obtain cid cname docs where e: "e = (cid, cname, docs)" by (cases e)
  obtain q n k where acc: "acc = (q, n, k)" by (cases acc)
  show ?case
    unfolding e acc buildQueue.simps if_True
  proof (rule emitsOnly_andThen)
    show "emitsOnly (buildExistingRecordSet env stringify b d cid) (listsFrom d)"
      by (rule emitsOnly_buildExistingRecordSet)
  next
    fix a :: "jsval list \<times> string option"
    show "emitsOnly
            (case a of (existingSet, identifierField) \<Rightarrow>
               let missingDocs =
                     filter (\<lambda>doc. isDocumentMissing stringify doc existingSet identifierField) docs
               in buildQueue env stringify b d True entries
                    (q @ [(cid, cname, missingDocs)], n + length missingDocs,
                     k + (length docs - length missingDocs)))
            (listsFrom d)"
      using Cons.IH by (cases a) (simp add: Let_def)
  qed
qed

lemma emitsOnly_buildQueue_all:
  "emitsOnly (buildQueue env stringify b d False entries acc) P"
proof (induction entries arbitrary: acc)
  case Nil
  show ?case by auto
next
  case (Cons e entries)
  obtain cid cname docs where e: "e = (cid, cname, docs)" by (cases e)
  obtain q n k where acc: "acc = (q, n, k)" by (cases acc)
  show ?case
    unfolding e acc buildQueue.simps if_False by (rule Cons.IH)
qed

lemma emitsOnly_buildQueue:
  "emitsOnly (buildQueue env stringify b d missing entries acc) (\<lambda>c. missing \<and> listsFrom d c)"
  by (cases missing) (simp_all add: emitsOnly_buildQueue_missing emitsOnly_buildQueue_all)

lemma failedWrites_simps [simp]:
  "failedWrites [] = 0"
  "failedWrites (l1 @ l2) = failedWrites l1 + failedWrites l2"
  "failedWrites ((c, r) # l) = (if isCreateDocument c \<and> isFailed r then 1 else 0) + failedWrites l"
  by (simp_all add: failedWrites_def)

lemma failedWrites_none:
  "\<forall>(c, x) \<in> set l. \<not> isCreateDocument c \<Longrightarrow> failedWrites l = 0"
  by (induction l) auto

lemma recordDocumentError_cases:
  assumes "recordDocumentError name e totals h = Some (r, h')"
  shows "h' = h \<and> (\<forall>res. r = Inr res \<longrightarrow>
           documentsFailed res = documentsFailed totals + 1 \<and>
           documentsSkipped res = documentsSkipped totals)"
  using assms
  by (auto simp: recordDocumentError_def Let_def split: option.splits if_splits)

lemma insertDocuments_log:
  "insertDocuments env d cid cname docs totals h = Some (r, h') \<Longrightarrow>
   \<exists>l. h' = h @ l \<and> (\<forall>(c, x) \<in> set l. writesTo d c) \<and>
       (\<forall>res. r = Inr res \<longrightarrow>
          documentsFailed res = documentsFailed totals + failedWrites l \<and>
          documentsSkipped res = documentsSkipped totals)"
proof (induction docs arbitrary: totals h)
  case Nil
  then show ?case by simp
next
  case (Cons doc docs)
  let ?c = "CreateDocument d cid (cleanDocumentData doc)"
  let ?h1 = "h @ [(?c, env h ?c)]"
  have w: "writesTo d ?c" by (auto simp: writesTo_def)
  show ?case
  proof (cases "isFailed (env h ?c)")
    case True
    then obtain m where m: "env h ?c = Failed m" by (cases "env h ?c") auto
    with Cons.prems have
      "andThen (recordDocumentError cname (field ''$id'' doc, m) totals)
         (insertDocuments env d cid cname docs) ?h1 = Some (r, h')"
      by simp
    then show ?thesis
    proof (cases rule: andThenE)
      case (thrown e)
      from recordDocumentError_cases [OF thrown(1)] thrown(2) w m show ?thesis
        by (intro exI [of _ "[(?c, env h ?c)]"]) simp
    next
      case (went t h2)
      from recordDocumentError_cases [OF went(1)] have
        t: "h2 = ?h1" "documentsFailed t = documentsFailed totals + 1"
           "documentsSkipped t = documentsSkipped totals" by simp_all
      from Cons.IH [OF went(2) [unfolded t(1)]] obtain l where
        l: "h' = ?h1 @ l" "\<forall>(c, x) \<in> set l. writesTo d c"
           "\<forall>res. r = Inr res \<longrightarrow>
              documentsFailed res = documentsFailed t + failedWrites l \<and>
              documentsSkipped res = documentsSkipped t" by blast
      from l t w m show ?thesis
        by (intro exI [of _ "(?c, env h ?c) # l"]) simp
    qed
  next
    case False
    with Cons.prems have
      "insertDocuments env d cid cname docs
         (totals\<lparr>documentsSuccess := documentsSuccess totals + 1\<rparr>) ?h1 = Some (r, h')"
      by (cases "env h ?c") simp_all
    from Cons.IH [OF this] obtain l where
      l: "h' = ?h1 @ l" "\<forall>(c, x) \<in> set l. writesTo d c"
         "\<forall>res. r = Inr res \<longrightarrow>
            documentsFailed res = documentsFailed totals + failedWrites l \<and>
            documentsSkipped res = documentsSkipped totals" by auto
    from l w False show ?thesis
      by (intro exI [of _ "(?c, env h ?c) # l"]) simp
  qed
qed

lemma insertQueue_log:
  "insertQueue env d queue totals h = Some (r, h') \<Longrightarrow>
   \<exists>l. h' = h @ l \<and> (\<forall>(c, x) \<in> set l. writesTo d c) \<and>
       (\<forall>res. r = Inr res \<longrightarrow>
          documentsFailed res = documentsFailed totals + failedWrites l \<and>
          documentsSkipped res = documentsSkipped totals)"
proof (induction queue arbitrary: totals h)
  case Nil
  then show ?case by simp
next
  case (Cons e queue)
  obtain cid cname docs where e: "e = (cid, cname, docs)" by (cases e)
  show ?case
  proof (cases "docs = []")
    case True
    with Cons.prems e have "insertQueue env d queue totals h = Some (r, h')" by simp
    from Cons.IH [OF this] show ?thesis .
  next
    case False
    with Cons.prems e have
      "andThen (substringOf cname) (\<lambda>_.
         andThen (insertDocuments env d cid cname docs totals) (insertQueue env d queue)) h
       = Some (r, h')" by simp
    then show ?thesis
    proof (cases rule: andThenE)
      case (thrown x)
      then have "h' = h"
        by (auto simp: substringOf_def split: option.splits json.splits)
      with thrown(2) show ?thesis by simp
    next
      case (went u h1)
      then have h1: "h1 = h"
        by (auto simp: substringOf_def split: option.splits json.splits)
      from went(2) [unfolded h1] show ?thesis
      proof (cases rule: andThenE)
        case (thrown x)
        from insertDocuments_log [OF thrown(1)] thrown(2) show ?thesis by auto
      next
        case (went t h2)
        from insertDocuments_log [OF went(1)] obtain l1 where
          l1: "h2 = h @ l1" "\<forall>(c, x) \<in> set l1. writesTo d c"
              "documentsFailed t = documentsFailed totals + failedWrites l1"
              "documentsSkipped t = documentsSkipped totals" by auto
        from Cons.IH [OF went(2)] obtain l2 where
          l2: "h' = h2 @ l2" "\<forall>(c, x) \<in> set l2. writesTo d c"
              "\<forall>res. r = Inr res \<longrightarrow>
                 documentsFailed res = documentsFailed t + failedWrites l2 \<and>
                 documentsSkipped res = documentsSkipped t" by blast
        from l1 l2 show ?thesis
          by (intro exI [of _ "l1 @ l2"]) auto
      qed
    qed
  qed
qed

lemma cloneDocuments_cases:
  assumes run: "cloneDocuments env stringify b t s d missing collections h = Some (r, h')"
  obtains
    (fetching) l e where "h' = h @ l" "\<forall>(c, x) \<in> set l. schemaCall c" "r = Inl e"
  | (unwritten) cds l x e where "list_all2 (fetchedFor env b s) collections cds"
      "h' = h @ l @ [(WriteCache (cacheData s d t cds), x)]"
      "\<forall>(c, x) \<in> set l. schemaCall c" "isFailed x" "r = Inl e"
  | (aborted) cds l x l2 e where "list_all2 (fetchedFor env b s) collections cds"
      "h' = h @ l @ [(WriteCache (cacheData s d t cds), x)] @ l2"
      "\<forall>(c, x) \<in> set l. schemaCall c" "\<not> isFailed x"
      "\<forall>(c, x) \<in> set l2. snapshotCall missing d c" "r = Inl e"
  | (finished) cds l x l2 y where "list_all2 (fetchedFor env b s) collections cds"
      "h' = h @ l @ [(WriteCache (cacheData s d t cds), x)] @ l2 @ [(DeleteCache, y)]"
      "\<forall>(c, x) \<in> set l. schemaCall c" "\<not> isFailed x"
      "\<forall>(c, x) \<in> set l2. snapshotCall missing d c"
      "if isFailed y then \<exists>e. r = Inl e
       else \<exists>res. r = Inr res \<and> documentsFailed res = failedWrites l2"
  using run [unfolded cloneDocuments_def]
proof (cases rule: andThenE)
  case (thrown e)
  from emitsOnlyD [OF emitsOnly_fetchCollectionDocs thrown(1)] thrown(2) fetching
  show ?thesis by blast
next
  case fetched: (went cds h1)
  let ?w = "WriteCache (cacheData s d t cds)"
  from emitsOnlyD [OF emitsOnly_fetchCollectionDocs fetched(1)] obtain l where
    l: "h1 = h @ l" "\<forall>(c, x) \<in> set l. schemaCall c" by blast
  from fetchCollectionDocs_entries [OF fetched(1)]
  have cds: "list_all2 (fetchedFor env b s) collections cds" by simp
  from fetched(2) show ?thesis
  proof (cases rule: andThenE)
    case (thrown e)
    from writeCacheFile_cases [OF thrown(1)] thrown(2) l cds unwritten [of cds l "env h1 ?w" e]
    show ?thesis by (auto split: if_splits)
  next
    case written: (went u h2)
    from writeCacheFile_cases [OF written(1)] have
      h2: "h2 = h1 @ [(?w, env h1 ?w)]" and ok: "\<not> isFailed (env h1 ?w)"
      by (auto split: if_splits)
    from h2 ok have content: "cacheFile h2 = Some (cacheData s d t cds)"
      by (simp add: cacheFile_snoc cacheStep_def)
    have stop: thesis if "h' = h2 @ l2" "\<forall>(c, x) \<in> set l2. snapshotCall missing d c" "r = Inl e"
      for l2 e
      using that aborted [of cds l "env h1 ?w" l2 e] cds l h2 ok by simp
    from written(2) show ?thesis
    proof (cases rule: andThenE)
      case (thrown e)
      from readCacheFile_cases [OF thrown(1) content] thrown(2)
      show ?thesis by (intro stop [of "[(ReadCache, env h2 ReadCache)]" e]) simp_all
    next
      case read: (went cachedData h3)
      from readCacheFile_cases [OF read(1) content] have
        h3: "h3 = h2 @ [(ReadCache, env h2 ReadCache)]" and data: "cachedData = cacheData s d t cds"
        by (auto split: if_splits)
      from read(2) [unfolded data cachedCollections_cacheData option.case] show ?thesis
      proof (cases rule: andThenE)
        case (thrown e)
        from emitsOnlyD [OF emitsOnly_buildQueue thrown(1)] obtain l3 where
          l3: "h' = h3 @ l3" "\<forall>(c, x) \<in> set l3. missing \<and> listsFrom d c" by blast
        from l3(2) have "\<forall>(c, x) \<in> set l3. snapshotCall missing d c"
          by (auto simp: listsFrom_def)
        with l3(1) h3 thrown(2) show ?thesis
          by (intro stop [of "(ReadCache, env h2 ReadCache) # l3" e]) simp_all
      next
        case queued: (went a h4)
        obtain queue n k where a: "a = (queue, n, k)" by (cases a)
        from emitsOnlyD [OF emitsOnly_buildQueue queued(1)] obtain l3 where
          l3: "h4 = h3 @ l3" "\<forall>(c, x) \<in> set l3. missing \<and> listsFrom d c" by blast
        from l3(2) have snap3: "\<forall>(c, x) \<in> set l3. snapshotCall missing d c"
          and quiet3: "\<forall>(c, x) \<in> set l3. \<not> isCreateDocument c"
          by (auto simp: listsFrom_def)
        from queued(2) [unfolded a prod.case] show ?thesis
        proof (cases rule: andThenE)
          case (thrown e)
          then have "n > 0 \<and> insertQueue env d queue (noDocuments\<lparr>documentsSkipped := k\<rparr>) h4
                       = Some (Inl e, h')"
            by (auto split: if_splits)
          from insertQueue_log [OF this [THEN conjunct2]] obtain l4 where
            l4: "h' = h4 @ l4" "\<forall>(c, x) \<in> set l4. writesTo d c" by blast
          from l4(2) have "\<forall>(c, x) \<in> set l4. snapshotCall missing d c"
            by (auto simp: writesTo_def)
          with snap3 l4(1) l3(1) h3 thrown(2) show ?thesis
            by (intro stop [of "(ReadCache, env h2 ReadCache) # l3 @ l4" e]) auto
        next
          case inserted: (went totals h5)
          have "\<exists>l4. h5 = h4 @ l4 \<and> (\<forall>(c, x) \<in> set l4. writesTo d c) \<and>
                     documentsFailed totals = failedWrites l4"
          proof (cases "n > 0")
            case True
            with inserted(1) have
              "insertQueue env d queue (noDocuments\<lparr>documentsSkipped := k\<rparr>) h4
                 = Some (Inr totals, h5)" by simp
            from insertQueue_log [OF this] show ?thesis by (auto simp: noDocuments_def)
          next
            case False
            with inserted(1) show ?thesis by (auto simp: noDocuments_def)
          qed
          then obtain l4 where
            l4: "h5 = h4 @ l4" "\<forall>(c, x) \<in> set l4. writesTo d c"
                "documentsFailed totals = failedWrites l4" by blast
          from l4(2) have snap4: "\<forall>(c, x) \<in> set l4. snapshotCall missing d c"
            by (auto simp: writesTo_def)
          let ?l2 = "(ReadCache, env h2 ReadCache) # l3 @ l4"
          have snap: "\<forall>(c, x) \<in> set ?l2. snapshotCall missing d c"
            using snap3 snap4 by auto
          have h5: "h5 = h2 @ ?l2" using l4(1) l3(1) h3 by simp
          have "cacheFile h5 = cacheFile h2"
            unfolding h5 cacheFile_append by (rule fold_cacheStep_snapshot [OF snap])
          with content have present: "cacheFile h5 \<noteq> None" by simp
          have fw: "failedWrites ?l2 = failedWrites l4"
            using failedWrites_none [OF quiet3] by simp
          from inserted(2) show ?thesis
          proof (cases rule: andThenE)
            case (thrown e)
            from deleteCacheFile_cases [OF thrown(1) present] thrown(2)
            have "h' = h @ l @ [(?w, env h1 ?w)] @ ?l2 @ [(DeleteCache, env h5 DeleteCache)]"
              "isFailed (env h5 DeleteCache)"
              using h5 h2 l(1) by (auto split: if_splits)
            with thrown(2) cds l(2) ok snap
              finished [of cds l "env h1 ?w" ?l2 "env h5 DeleteCache"]
            show ?thesis by simp
          next
            case (went u h6)
            from deleteCacheFile_cases [OF went(1) present] went(2)
            have "h' = h @ l @ [(?w, env h1 ?w)] @ ?l2 @ [(DeleteCache, env h5 DeleteCache)]"
              "\<not> isFailed (env h5 DeleteCache)" "r = Inr totals"
              using h5 h2 l(1) by (auto split: if_splits)
            with cds l(2) ok snap l4(3) fw
              finished [of cds l "env h1 ?w" ?l2 "env h5 DeleteCache"]
            show ?thesis by simp
          qed
        qed
      qed
    qed
  qed
qed





lemma halts_ret [simp]: "halts (ret a)"
  by (simp add: halts_def ret_def)

lemma halts_raise [simp]: "halts (raise e)"
  by (simp add: halts_def raise_def)

lemma halts_sleep [simp]: "halts (sleep env ms)"
  by (simp add: halts_def sleep_def)




lemma returns_weaken: "returns m Q \<Longrightarrow> (\<And>a. Q a \<Longrightarrow> R a) \<Longrightarrow> returns m R"
  unfolding returns_def by blast

















lemma textNames_simps [simp]:
  "textNames []"
  "textNames ((cid, cname, docs) # queue) = (isText cname \<and> textNames queue)"
  "textNames (q1 @ q2) = (textNames q1 \<and> textNames q2)"
  by (simp_all add: textNames_def ball_Un)










lemma cloneDatabase_cases:
  assumes run: "cloneDatabase env stringify b t s d options h = Some (r, h')"
  obtains
    (early) l where "h' = h @ l" "\<forall>(c, x) \<in> set l. schemaCall c"
      "(\<exists>e. r = Inl e) \<or>
       fetchAllCollections env s h = Some (Inr [], h') \<and>
         r = Inr \<lparr>collectionResults = noCollections, documentResults = noDocuments\<rparr> \<or>
       \<not> (cloneData options \<or> missingOnly options) \<and>
         (\<exists>ct. r = Inr \<lparr>collectionResults = ct, documentResults = noDocuments\<rparr>)"
  | (documents) collections h1 l ct r2 where
      "fetchAllCollections env s h = Some (Inr collections, h1)" "collections \<noteq> []"
      "cloneData options \<or> missingOnly options"
      "\<forall>(c, x) \<in> set l. schemaCall c"
      "cloneDocuments env stringify b t s d (missingOnly options) collections (h @ l) = Some (r2, h')"
      "r = (case r2 of Inl e \<Rightarrow> Inl e
                     | Inr dt \<Rightarrow> Inr \<lparr>collectionResults = ct, documentResults = dt\<rparr>)"
  using run [unfolded cloneDatabase_def]
proof (cases rule: andThenE)
  case (thrown e)
  from emitsOnlyD [OF emitsOnly_fetchAllCollections thrown(1), of schemaCall] thrown(2) early
  show ?thesis by (auto simp: schemaCall_def)
next
  case listed: (went collections h1)
  from emitsOnlyD [OF emitsOnly_fetchAllCollections listed(1), of schemaCall] obtain l1 where
    l1: "h1 = h @ l1" "\<forall>(c, x) \<in> set l1. schemaCall c" by (auto simp: schemaCall_def)
  show ?thesis
  proof (cases "collections = []")
    case True
    with listed l1 early [of l1] show ?thesis by auto
  next
    case False
    with listed(2) have
      "andThen (if cloneStructure options then
                  cloneStructures env s d collections noCollections
                else ret noCollections) (\<lambda>collectionTotals.
         andThen (if cloneData options \<or> missingOnly options then
                    cloneDocuments env stringify b t s d (missingOnly options) collections
                  else ret noDocuments) (\<lambda>documentTotals.
         ret \<lparr>collectionResults = collectionTotals, documentResults = documentTotals\<rparr>)) h1
       = Some (r, h')" by simp
    then show ?thesis
    proof (cases rule: andThenE)
      case (thrown e)
      have "emitsOnly (if cloneStructure options then
                         cloneStructures env s d collections noCollections
                       else ret noCollections) schemaCall"
        by (simp add: emitsOnly_cloneStructures emitsOnly_ret)
      from emitsOnlyD [OF this thrown(1)] obtain l2 where
        "h' = h1 @ l2" "\<forall>(c, x) \<in> set l2. schemaCall c" by blast
      with l1 thrown(2) early [of "l1 @ l2"] show ?thesis by auto
    next
      case structures: (went ct h2)
      have "emitsOnly (if cloneStructure options then
                         cloneStructures env s d collections noCollections
                       else ret noCollections) schemaCall"
        by (simp add: emitsOnly_cloneStructures emitsOnly_ret)
      from emitsOnlyD [OF this structures(1)] obtain l2 where
        l2: "h2 = h1 @ l2" "\<forall>(c, x) \<in> set l2. schemaCall c" by blast
      from l1 l2 have h2: "h2 = h @ (l1 @ l2)" and schema: "\<forall>(c, x) \<in> set (l1 @ l2). schemaCall c"
        by auto
      show ?thesis
      proof (cases "cloneData options \<or> missingOnly options")
        case False
        with structures(2) have "h' = h2" "r = Inr \<lparr>collectionResults = ct, documentResults = noDocuments\<rparr>"
          by (auto simp: andThen_def ret_def)
        with False h2 schema early [of "l1 @ l2"] show ?thesis by blast
      next
        case True
        with structures(2) have
          "andThen (cloneDocuments env stringify b t s d (missingOnly options) collections)
             (\<lambda>documentTotals.
                ret \<lparr>collectionResults = ct, documentResults = documentTotals\<rparr>) h2
           = Some (r, h')" by simp
        then show ?thesis
        proof (cases rule: andThenE)
          case (thrown e)
          with listed(1) False True schema h2
            documents [of collections h1 "l1 @ l2" "Inl e" ct]
          show ?thesis by simp
        next
          case (went dt h3)
          with listed(1) False True schema h2
            documents [of collections h1 "l1 @ l2" "Inr dt" ct]
          show ?thesis by simp
        qed
      qed
    qed
  qed
qed

lemma written_schema: "schemaCall c \<Longrightarrow> written (c, r) = []"
  by (cases c) (auto simp: schemaCall_def)

lemma written_snapshot: "snapshotCall m d c \<Longrightarrow> written (c, r) = []"
  by (cases c) auto

lemma schema_quiet:
  assumes "\<forall>(c, x) \<in> set l. schemaCall c"
  shows "stages m d Fetching l = Some Fetching" "fold cacheStep l v = v" "failedWrites l = 0"
    "snapshotsWritten l = []"
proof -
  show "stages m d Fetching l = Some Fetching" by (rule stages_schema [OF assms])
  show "fold cacheStep l v = v" by (rule fold_cacheStep_schema [OF assms])
  from assms have "\<forall>(c, x) \<in> set l. \<not> isCreateDocument c"
    by (auto simp: schemaCall_def elim!: isCreateDocument.elims)
  then show "failedWrites l = 0" by (rule failedWrites_none)
  from assms show "snapshotsWritten l = []"
    by (induction l) (auto simp: snapshotsWritten_def written_schema)
qed

lemma snapshot_quiet:
  assumes "\<forall>(c, x) \<in> set l. snapshotCall m d c"
  shows "stages m d Snapshot l = Some Snapshot" "fold cacheStep l v = v"
    "snapshotsWritten l = []"
proof -
  show "stages m d Snapshot l = Some Snapshot" by (rule stages_snapshot [OF assms])
  show "fold cacheStep l v = v" by (rule fold_cacheStep_snapshot [OF assms])
  from assms show "snapshotsWritten l = []"
    by (induction l) (auto simp: snapshotsWritten_def written_snapshot)
qed

lemma snapshotsWritten_append [simp]:
  "snapshotsWritten (l1 @ l2) = snapshotsWritten l1 @ snapshotsWritten l2"
  by (simp add: snapshotsWritten_def)

lemma snapshotsWritten_Cons [simp]:
  "snapshotsWritten (ev # l) = written ev @ snapshotsWritten l"
  by (simp add: snapshotsWritten_def)

lemma snapshotsWritten_Nil [simp]: "snapshotsWritten [] = []"
  by (simp add: snapshotsWritten_def)

lemma cloneDatabase_log:
  assumes run: "cloneDatabase env stringify b t s d options h = Some (r, h')"
  obtains
    (quiet) l where "h' = h @ l" "\<forall>(c, x) \<in> set l. schemaCall c"
      "(\<exists>e. r = Inl e) \<or>
       fetchAllCollections env s h = Some (Inr [], h') \<and>
         r = Inr \<lparr>collectionResults = noCollections, documentResults = noDocuments\<rparr> \<or>
       \<not> (cloneData options \<or> missingOnly options) \<and>
         (\<exists>ct. r = Inr \<lparr>collectionResults = ct, documentResults = noDocuments\<rparr>)"
  | (unwritten) collections g cds l x e where
      "fetchAllCollections env s h = Some (Inr collections, g)"
      "list_all2 (fetchedFor env b s) collections cds"
      "h' = h @ l @ [(WriteCache (cacheData s d t cds), x)]"
      "\<forall>(c, x) \<in> set l. schemaCall c" "isFailed x" "r = Inl e"
  | (aborted) collections g cds l x l2 e where
      "fetchAllCollections env s h = Some (Inr collections, g)"
      "list_all2 (fetchedFor env b s) collections cds"
      "h' = h @ l @ [(WriteCache (cacheData s d t cds), x)] @ l2"
      "\<forall>(c, x) \<in> set l. schemaCall c" "\<not> isFailed x"
      "\<forall>(c, x) \<in> set l2. snapshotCall (missingOnly options) d c" "r = Inl e"
  | (finished) collections g cds l x l2 y where
      "fetchAllCollections env s h = Some (Inr collections, g)"
      "list_all2 (fetchedFor env b s) collections cds"
      "h' = h @ l @ [(WriteCache (cacheData s d t cds), x)] @ l2 @ [(DeleteCache, y)]"
      "\<forall>(c, x) \<in> set l. schemaCall c" "\<not> isFailed x"
      "\<forall>(c, x) \<in> set l2. snapshotCall (missingOnly options) d c"
      "if isFailed y then \<exists>e. r = Inl e
       else \<exists>res. r = Inr res \<and> documentsFailed (documentResults res) = failedWrites l2"
  using run
proof (cases rule: cloneDatabase_cases)
  case (early l)
  with quiet show ?thesis by blast
next
  case (documents collections h1 l ct r2)
  from documents(5) show ?thesis
  proof (cases rule: cloneDocuments_cases)
    case (fetching l' e)
    with documents(4,6) quiet [of "l @ l'"] show ?thesis by auto
  next
    case inner: (unwritten cds l' x e)
    from inner(3) documents(4) have "\<forall>(c, x) \<in> set (l @ l'). schemaCall c" by auto
    with inner documents(1,6) unwritten [of collections h1 cds "l @ l'" x e]
    show ?thesis by simp
  next
    case inner: (aborted cds l' x l2 e)
    from inner(3) documents(4) have "\<forall>(c, x) \<in> set (l @ l'). schemaCall c" by auto
    with inner documents(1,6) aborted [of collections h1 cds "l @ l'" x l2 e]
    show ?thesis by simp
  next
    case inner: (finished cds l' x l2 y)
    from inner(3) documents(4) have schema: "\<forall>(c, x) \<in> set (l @ l'). schemaCall c" by auto
    from inner(6) documents(6) have
      "if isFailed y then \<exists>e. r = Inl e
       else \<exists>res. r = Inr res \<and> documentsFailed (documentResults res) = failedWrites l2"
      by (auto split: if_splits)
    with schema inner(1,2,4,5) documents(1) finished [of collections h1 cds "l @ l'" x l2 y]
    show ?thesis by simp
  qed
qed

lemma cacheEntry_shape:
  "\<exists>ob. cacheEntry (cid, cname, docs) = JObj ob \<and> distinct (map fst ob) \<and>
        set (map fst ob) \<subseteq> set entryKeys \<and>
        field ''collectionId'' ob = cid \<and> field ''collectionName'' ob = cname \<and>
        field ''documentCount'' ob = Some (JNum (int (length docs))) \<and>
        field ''documents'' ob = Some (JArr (map JObj docs))"
  by (cases cid; cases cname)
     (simp_all add: cacheEntry_def jsonObject_def field_def entryKeys_def)

lemma fetched_entries:
  "list_all2 (fetchedFor env b s) collections cds \<Longrightarrow>
   list_all2 (snapshotEntry env b s) collections (map cacheEntry cds)"
proof (induction rule: list_all2_induct)
  case Nil
  show ?case by simp
next
  case (Cons c cs cd cds)
  obtain cid cname docs where cd: "cd = (cid, cname, docs)" by (cases cd)
  from Cons(1) cd obtain g g' where
    f: "cid = field ''$id'' c" "cname = field ''name'' c"
       "fetchAllDocuments env b s (field ''$id'' c) g = Some (Inr docs, g')"
    by (auto simp: fetchedFor_def)
  from cacheEntry_shape [of cid cname docs] f have "snapshotEntry env b s c (cacheEntry cd)"
    unfolding snapshotEntry_def cd by blast
  with Cons.IH show ?case by simp
qed


subsection \<open>Errors counted and errors thrown by the schema replicator\<close>

lemma onlyIndexTrouble_simps [simp]:
  "onlyIndexTrouble []"
  "onlyIndexTrouble (l1 @ l2) = (onlyIndexTrouble l1 \<and> onlyIndexTrouble l2)"
  "onlyIndexTrouble (ev # l) = (untroubled ev \<and> onlyIndexTrouble l)"
  by (simp_all add: onlyIndexTrouble_def)







lemma createAttribute_unknown:
  "createAttributeCall a = None \<Longrightarrow>
   createAttribute env db coll a h
     = (\<lparr>success = False, error = Some (unknownTypeMessage (field ''type'' a))\<rparr>, h)"
  by (simp add: createAttribute_def)



lemma createAttributesLoop_counts:
  "createAttributesLoop env db coll attrs acc h = Some (Inr res, h') \<Longrightarrow>
   \<exists>l. h' = h @ l \<and>
       errorCount res
         = errorCount acc + length (attributeFailures l) + length (filter unknownType attrs) \<and>
       successCount res + length (attributeFailures l)
         = successCount acc + length (attributeSubmissions l) \<and>
       length (errors res) + errorCount acc = length (errors acc) + errorCount res \<and>
       set (errors acc) \<subseteq> set (errors res) \<and>
       (\<forall>a \<in> set attrs. unknownType a \<longrightarrow>
          (field ''key'' a, Some (unknownTypeMessage (field ''type'' a))) \<in> set (errors res))"
proof (induction attrs arbitrary: acc h)
  case Nil
  then show ?case by simp
next
  case (Cons a attrs)
  show ?case
  proof (cases "isChildRelationship a")
    case True
    with Cons.prems have "createAttributesLoop env db coll attrs acc h = Some (Inr res, h')"
      by simp
    from Cons.IH [OF this] True show ?thesis by (simp add: unknownType_def)
  next
    case False
    show ?thesis
    proof (cases "createAttributeCall a")
      case None
      then have unknown: "unknownType a"
        using False by (simp add: unknownType_def createAttributeCall_known)
      let ?entry = "(field ''key'' a, Some (unknownTypeMessage (field ''type'' a)))"
      let ?acc = "acc\<lparr>errorCount := errorCount acc + 1, errors := errors acc @ [?entry]\<rparr>"
      from Cons.prems False createAttribute_unknown [OF None, of env db coll h] have
        "createAttributesLoop env db coll attrs ?acc h = Some (Inr res, h')"
        by simp
      from Cons.IH [OF this] obtain l where
        l: "h' = h @ l"
           "errorCount res
              = errorCount ?acc + length (attributeFailures l) + length (filter unknownType attrs)"
           "successCount res + length (attributeFailures l)
              = successCount ?acc + length (attributeSubmissions l)"
           "length (errors res) + errorCount ?acc = length (errors ?acc) + errorCount res"
           "set (errors ?acc) \<subseteq> set (errors res)"
           "\<forall>a \<in> set attrs. unknownType a \<longrightarrow>
              (field ''key'' a, Some (unknownTypeMessage (field ''type'' a))) \<in> set (errors res)"
        by blast
      from l unknown show ?thesis by (intro exI [of _ l]) auto
    next
      case (Some p)
      obtain sdkMethod args where p: "p = (sdkMethod, args)" by (cases p)
      from Some have known: "\<not> unknownType a"
        using createAttributeCall_known [of a] by (simp add: unknownType_def)
      let ?c = "CreateAttribute sdkMethod db coll args"
      let ?ev = "(?c, env h ?c)"
      show ?thesis
      proof (cases "isFailed (env h ?c)")
        case True
        then obtain m where m: "env h ?c = Failed m" by (cases "env h ?c") auto
        let ?acc = "acc\<lparr>errorCount := errorCount acc + 1,
                        errors := errors acc @ [(field ''key'' a, Some m)]\<rparr>"
        from Cons.prems False Some p m have
          "createAttributesLoop env db coll attrs ?acc (h @ [?ev]) = Some (Inr res, h')"
          by (simp add: createAttribute_def)
        from Cons.IH [OF this] obtain l where
          l: "h' = (h @ [?ev]) @ l"
             "errorCount res
                = errorCount ?acc + length (attributeFailures l) + length (filter unknownType attrs)"
             "successCount res + length (attributeFailures l)
                = successCount ?acc + length (attributeSubmissions l)"
             "length (errors res) + errorCount ?acc = length (errors ?acc) + errorCount res"
             "set (errors ?acc) \<subseteq> set (errors res)"
             "\<forall>a \<in> set attrs. unknownType a \<longrightarrow>
                (field ''key'' a, Some (unknownTypeMessage (field ''type'' a))) \<in> set (errors res)"
          by blast
        from l known True show ?thesis by (intro exI [of _ "?ev # l"]) auto
      next
        case ok: False
        let ?acc = "acc\<lparr>successCount := successCount acc + 1\<rparr>"
        from ok have "createAttribute env db coll a h = (\<lparr>success = True, error = None\<rparr>, h @ [?ev])"
          using Some p by (cases "env h ?c") (simp_all add: createAttribute_def)
        with Cons.prems False have
          "andThen (waitForAttribute env db coll (field ''key'' a) 30)
             (\<lambda>_. createAttributesLoop env db coll attrs ?acc) (h @ [?ev]) = Some (Inr res, h')"
          by simp
        then show ?thesis
        proof (cases rule: andThenE)
          case (went b h2)
          from went(1) obtain lw where
            lw: "h2 = (h @ [?ev]) @ lw" "\<forall>(c, x) \<in> set lw. isListing c \<or> isSleep c"
            by (rule waitForAttribute_quiet)
          from Cons.IH [OF went(2)] obtain l where
            l: "h' = h2 @ l"
               "errorCount res
                  = errorCount ?acc + length (attributeFailures l) + length (filter unknownType attrs)"
               "successCount res + length (attributeFailures l)
                  = successCount ?acc + length (attributeSubmissions l)"
               "length (errors res) + errorCount ?acc = length (errors ?acc) + errorCount res"
               "set (errors ?acc) \<subseteq> set (errors res)"
               "\<forall>a \<in> set attrs. unknownType a \<longrightarrow>
                  (field ''key'' a, Some (unknownTypeMessage (field ''type'' a))) \<in> set (errors res)"
            by blast
          from l lw(1) quiet_facts [OF lw(2)] known ok show ?thesis
            by (intro exI [of _ "?ev # lw @ l"]) auto
        qed simp
      qed
    qed
  qed
qed

subsection \<open>The schema replicator returns when the listings end\<close>








section \<open>The claims\<close>

subsection \<open>Document sanitizer\<close>

text \<open>
  Claim C1, as the code has it. For a document with distinct keys: the keys of the cleaned
  field map are the keys of the document other than the seven system fields and
  \<^verbatim>\<open>__proto__\<close>; a relationship-shaped field value is replaced by its identifier (what its
  \<^verbatim>\<open>$id\<close> holds); a relationship-shaped element of an array field is replaced by its
  identifier, at its place in the array; any other object that is a field value is replaced
  by the result of \<^verbatim>\<open>cleanNestedObject\<close>. Inside such a plain object no value is collapsed:
  \<^verbatim>\<open>cleanNestedObject\<close> keeps the keys other than the system fields and \<^verbatim>\<open>__proto__\<close>, and
  an object under one of them, relationship-shaped or not, is replaced by its own cleaned
  copy. The cleaned field map has none of the system fields as a key at any depth when what
  the sanitizer copies as it is has none: when the identifiers of the relationship-shaped
  values are primitive, and the arrays that are elements of arrays hold no system field.
\<close>

theorem sanitize_strips_and_collapses:
  assumes "distinct (map fst d)"
  shows "fst ` set (cleanDocumentData d) = {k \<in> fst ` set d. carried k} \<and>
     (\<forall>(k, v) \<in> set d. carried k \<longrightarrow>
        (isRelatedDocument v \<longrightarrow> field k (cleanDocumentData d) = relatedId v) \<and>
        (\<forall>items. v = JArr items \<longrightarrow>
           (\<exists>out. field k (cleanDocumentData d) = Some (JArr out) \<and> length out = length items \<and>
              (\<forall>i < length items. isRelatedDocument (items ! i) \<longrightarrow>
                 Some (out ! i) = relatedId (items ! i)))) \<and>
        (\<forall>inner. v = JObj inner \<longrightarrow> \<not> isRelatedDocument v \<longrightarrow>
           field k (cleanDocumentData d) = Some (JObj (cleanNestedObject inner systemFields)))) \<and>
     (\<forall>ob. distinct (map fst ob) \<longrightarrow>
        fst ` set (cleanNestedObject ob systemFields) = {k \<in> fst ` set ob. carried k} \<and>
        (\<forall>(k, v) \<in> set ob. carried k \<longrightarrow> (\<forall>inner. v = JObj inner \<longrightarrow>
           field k (cleanNestedObject ob systemFields)
             = Some (JObj (cleanNestedObject inner systemFields))))) \<and>
     (innerArraysClean (JObj d) \<and> relationIdsArePrimitive d \<longrightarrow>
        metaFree (JObj (cleanDocumentData d)))"
proof (intro conjI)
  show "fst ` set (cleanDocumentData d) = {k \<in> fst ` set d. carried k}"
    by (rule keys_cleanDocumentData)
next
  have "field k (cleanDocumentData d) = relatedId v"
    if kv: "(k, v) \<in> set d" "carried k" and rel: "isRelatedDocument v" for k v
    using field_cleanDocumentData [OF assms kv] topValue_related [OF rel] by simp
  moreover
  have "\<exists>out. field k (cleanDocumentData d) = Some (JArr out) \<and> length out = length items \<and>
           (\<forall>i < length items. isRelatedDocument (items ! i) \<longrightarrow>
              Some (out ! i) = relatedId (items ! i))"
    if kv: "(k, JArr items) \<in> set d" "carried k" for k items
  proof -
    have f: "field k (cleanDocumentData d) = Some (JArr (map cleanItem items))"
      using field_cleanDocumentData [OF assms kv] by (simp add: topValue_def)
    have "Some (map cleanItem items ! i) = relatedId (items ! i)"
      if "i < length items" "isRelatedDocument (items ! i)" for i
      using that by (simp add: cleanItem_related)
    with f show ?thesis by auto
  qed
  moreover
  have "field k (cleanDocumentData d) = Some (JObj (cleanNestedObject inner systemFields))"
    if kv: "(k, JObj inner) \<in> set d" "carried k" and plain: "\<not> isRelatedDocument (JObj inner)"
    for k inner
    using field_cleanDocumentData [OF assms kv] plain
    by (simp add: topValue_def del: isRelatedDocument.simps)
  ultimately show "\<forall>(k, v) \<in> set d. carried k \<longrightarrow>
        (isRelatedDocument v \<longrightarrow> field k (cleanDocumentData d) = relatedId v) \<and>
        (\<forall>items. v = JArr items \<longrightarrow>
           (\<exists>out. field k (cleanDocumentData d) = Some (JArr out) \<and> length out = length items \<and>
              (\<forall>i < length items. isRelatedDocument (items ! i) \<longrightarrow>
                 Some (out ! i) = relatedId (items ! i)))) \<and>
        (\<forall>inner. v = JObj inner \<longrightarrow> \<not> isRelatedDocument v \<longrightarrow>
           field k (cleanDocumentData d) = Some (JObj (cleanNestedObject inner systemFields)))"
    by blast
next
  have "fst ` set (cleanNestedObject ob systemFields) = {k \<in> fst ` set ob. carried k}" for ob
    unfolding cleanNestedObject_storeAll keys_storeAll carried_iff by simp
  moreover
  have "field k (cleanNestedObject ob systemFields)
          = Some (JObj (cleanNestedObject inner systemFields))"
    if "distinct (map fst ob)" "(k, JObj inner) \<in> set ob" "carried k" for ob k inner
    using field_cleanNestedObject [OF that] by (simp add: nestedValue_def)
  ultimately show "\<forall>ob. distinct (map fst ob) \<longrightarrow>
        fst ` set (cleanNestedObject ob systemFields) = {k \<in> fst ` set ob. carried k} \<and>
        (\<forall>(k, v) \<in> set ob. carried k \<longrightarrow> (\<forall>inner. v = JObj inner \<longrightarrow>
           field k (cleanNestedObject ob systemFields)
             = Some (JObj (cleanNestedObject inner systemFields))))"
    by blast
next
  show "innerArraysClean (JObj d) \<and> relationIdsArePrimitive d \<longrightarrow>
        metaFree (JObj (cleanDocumentData d))"
  proof
    assume "innerArraysClean (JObj d) \<and> relationIdsArePrimitive d"
    then show "metaFree (JObj (cleanDocumentData d))"
      using metaFree_cleanDocumentData [of d] by blast
  qed
qed

text \<open>
  A document with a related author whose identifier is a number, an array of tags and a
  nested plain object that holds a related document.
\<close>

theorem sanitize_strips_and_collapses_witness:
  "distinct (map fst
       [(''$id'', JStr ''d1''), (''title'', JStr ''T''),
        (''author'', JObj [(''$id'', JNum 7), (''$collectionId'', JStr ''users''),
                           (''name'', JStr ''N'')]),
        (''tags'', JArr [JObj [(''$id'', JStr ''t1''), (''$collectionId'', JStr ''tags'')],
                         JStr ''plain'', JArr [JNum 1]]),
        (''meta'', JObj [(''$createdAt'', JStr ''now''),
                         (''by'', JObj [(''$id'', JStr ''u2''), (''$collectionId'', JStr ''users''),
                                        (''name'', JStr ''M'')])])]) \<and>
   cleanDocumentData
       [(''$id'', JStr ''d1''), (''title'', JStr ''T''),
        (''author'', JObj [(''$id'', JNum 7), (''$collectionId'', JStr ''users''),
                           (''name'', JStr ''N'')]),
        (''tags'', JArr [JObj [(''$id'', JStr ''t1''), (''$collectionId'', JStr ''tags'')],
                         JStr ''plain'', JArr [JNum 1]]),
        (''meta'', JObj [(''$createdAt'', JStr ''now''),
                         (''by'', JObj [(''$id'', JStr ''u2''), (''$collectionId'', JStr ''users''),
                                        (''name'', JStr ''M'')])])]
     = [(''title'', JStr ''T''), (''author'', JNum 7),
        (''tags'', JArr [JStr ''t1'', JStr ''plain'', JArr [JNum 1]]),
        (''meta'', JObj [(''by'', JObj [(''name'', JStr ''M'')])])] \<and>
   metaFree (JObj
       [(''title'', JStr ''T''), (''author'', JNum 7),
        (''tags'', JArr [JStr ''t1'', JStr ''plain'', JArr [JNum 1]]),
        (''meta'', JObj [(''by'', JObj [(''name'', JStr ''M'')])])])"
  (is "distinct (map fst ?d) \<and> cleanDocumentData ?d = ?out \<and> metaFree (JObj ?out)")
proof -
  have h1: "distinct (map fst ?d)" by simp
  have h2: "innerArraysClean (JObj ?d)" by simp
  have h3: "relationIdsArePrimitive ?d"
    by (simp add: relationIdsArePrimitive_def topIdsArePrimitive_def primitiveIdIfRelated_def
          field_def hasKey_def)
  have out: "cleanDocumentData ?d = ?out" by code_simp
  from sanitize_strips_and_collapses [OF h1] h2 h3
  have "metaFree (JObj (cleanDocumentData ?d))" by blast
  with h1 out show ?thesis by simp
qed

text \<open>
  Claim C1 as stated fails on these documents. The related document under \<^verbatim>\<open>a.b\<close> is
  inside a plain object and is not replaced by \<^verbatim>\<open>"x"\<close>: it only loses its system fields.
  The object inside the array of an array keeps its \<^verbatim>\<open>$id\<close>. The related document whose
  identifier is an object is replaced by that object, with the \<^verbatim>\<open>$id\<close> it has. And the
  related document under the key \<^verbatim>\<open>__proto__\<close> is not in the result at all.
\<close>

theorem sanitize_counterexample:
  "cleanDocumentData
     [(''a'', JObj [(''b'', JObj [(''$id'', JStr ''x''), (''$collectionId'', JStr ''c''),
                                  (''n'', JNum 1)])])]
   = [(''a'', JObj [(''b'', JObj [(''n'', JNum 1)])])] \<and>
   cleanDocumentData [(''t'', JArr [JArr [JObj [(''$id'', JStr ''y'')]]])]
   = [(''t'', JArr [JArr [JObj [(''$id'', JStr ''y'')]]])] \<and>
   \<not> metaFree (JObj (cleanDocumentData [(''t'', JArr [JArr [JObj [(''$id'', JStr ''y'')]]])])) \<and>
   cleanDocumentData
     [(''r'', JObj [(''$id'', JObj [(''$id'', JStr ''x'')]), (''$collectionId'', JStr ''c'')])]
   = [(''r'', JObj [(''$id'', JStr ''x'')])] \<and>
   \<not> metaFree (JObj (cleanDocumentData
     [(''r'', JObj [(''$id'', JObj [(''$id'', JStr ''x'')]), (''$collectionId'', JStr ''c'')])])) \<and>
   cleanDocumentData
     [(''__proto__'', JObj [(''$id'', JStr ''x''), (''$collectionId'', JStr ''c'')])]
   = []"
  by code_simp

text \<open>
  Claim C9, as the code has it. Cleaning a cleaned document changes nothing, for every
  document whose relationship-shaped values at the top (a field value, or an element of an
  array that is a field value) have an identifier that is neither an object nor an array.
\<close>

theorem sanitize_idempotent:
  assumes "relationIdsArePrimitive d"
  shows "cleanDocumentData (cleanDocumentData d) = cleanDocumentData d"
  using assms by (rule cleanDocumentData_idem)

text \<open>
  A document with a related author whose identifier is a number, one whose identifier is
  \<^verbatim>\<open>null\<close>, and an array that holds a related tag and an array.
\<close>

theorem sanitize_idempotent_witness:
  "relationIdsArePrimitive
       [(''$id'', JStr ''d1''),
        (''author'', JObj [(''$id'', JNum 7), (''$collectionId'', JStr ''users'')]),
        (''editor'', JObj [(''$id'', JNull), (''$collectionId'', JStr ''users'')]),
        (''tags'', JArr [JObj [(''$id'', JStr ''t1''), (''$collectionId'', JStr ''tags'')],
                         JArr [JObj [(''$id'', JNum 7)]]])] \<and>
   cleanDocumentData (cleanDocumentData
       [(''$id'', JStr ''d1''),
        (''author'', JObj [(''$id'', JNum 7), (''$collectionId'', JStr ''users'')]),
        (''editor'', JObj [(''$id'', JNull), (''$collectionId'', JStr ''users'')]),
        (''tags'', JArr [JObj [(''$id'', JStr ''t1''), (''$collectionId'', JStr ''tags'')],
                         JArr [JObj [(''$id'', JNum 7)]]])])
   = cleanDocumentData
       [(''$id'', JStr ''d1''),
        (''author'', JObj [(''$id'', JNum 7), (''$collectionId'', JStr ''users'')]),
        (''editor'', JObj [(''$id'', JNull), (''$collectionId'', JStr ''users'')]),
        (''tags'', JArr [JObj [(''$id'', JStr ''t1''), (''$collectionId'', JStr ''tags'')],
                         JArr [JObj [(''$id'', JNum 7)]]])]"
  (is "relationIdsArePrimitive ?d \<and> _")
proof -
  have h: "relationIdsArePrimitive ?d"
    by (simp add: relationIdsArePrimitive_def topIdsArePrimitive_def primitiveIdIfRelated_def
          field_def hasKey_def)
  from sanitize_idempotent [OF h] h show ?thesis by simp
qed

text \<open>
  Claim C9 as stated fails when the \<^verbatim>\<open>$id\<close> of a related document is itself a related
  document, and when it is an array that holds one: the first pass leaves that identifier
  as the field value, the second pass cleans it.
\<close>

theorem sanitize_idempotent_counterexample:
  "cleanDocumentData (cleanDocumentData
     [(''a'', JObj [(''$id'', JObj [(''$id'', JStr ''x''), (''$collectionId'', JStr ''c'')]),
                    (''$collectionId'', JStr ''c'')])])
   \<noteq> cleanDocumentData
     [(''a'', JObj [(''$id'', JObj [(''$id'', JStr ''x''), (''$collectionId'', JStr ''c'')]),
                    (''$collectionId'', JStr ''c'')])] \<and>
   cleanDocumentData (cleanDocumentData
     [(''a'', JObj [(''$id'', JArr [JObj [(''$id'', JStr ''x''), (''$collectionId'', JStr ''c'')]]),
                    (''$collectionId'', JStr ''c'')])])
   \<noteq> cleanDocumentData
     [(''a'', JObj [(''$id'', JArr [JObj [(''$id'', JStr ''x''), (''$collectionId'', JStr ''c'')]]),
                    (''$collectionId'', JStr ''c'')])]"
  by code_simp

subsection \<open>Paginator\<close>

text \<open>
  Claim C2, as the code has it. Against a service that serves \<open>N\<close> items with distinct,
  truthy keys in stable forward-ordered pages, each of the four paginators returns exactly
  the \<open>N\<close> items in their order, and makes \<open>N div P + 1\<close> listing requests, all with the
  page size \<open>P\<close> (100 for collections, attributes and indexes): the last request is the one
  that gets a page shorter than \<open>P\<close>.
\<close>

theorem paginator_returns_all:
  assumes "0 < P"
      and "distinct (map (field keyName) items)"
      and "\<forall>x \<in> set items. truthy (field keyName x)"
  shows "(keyName = ''$id'' \<longrightarrow>
           (\<exists>log. fetchAllDocuments (stableListing keyName items) P db coll h
                     = Some (Inr items, h @ log) \<and>
                  length log = length items div P + 1 \<and>
                  (\<forall>(c, r) \<in> set log. \<exists>cur. c = ListDocuments db coll P cur)) \<and>
           (\<exists>log. fetchAllCollections (stableListing keyName items) db h
                     = Some (Inr items, h @ log) \<and>
                  length log = length items div 100 + 1 \<and>
                  (\<forall>(c, r) \<in> set log. \<exists>cur. c = ListCollections db 100 cur))) \<and>
         (keyName = ''key'' \<longrightarrow>
           (\<exists>log. fetchAllAttributes (stableListing keyName items) db coll h
                     = Some (Inr items, h @ log) \<and>
                  length log = length items div 100 + 1 \<and>
                  (\<forall>(c, r) \<in> set log. \<exists>cur. c = ListAttributes db coll 100 cur)) \<and>
           (\<exists>log. fetchAllIndexes (stableListing keyName items) db coll h
                     = Some (Inr items, h @ log) \<and>
                  length log = length items div 100 + 1 \<and>
                  (\<forall>(c, r) \<in> set log. \<exists>cur. c = ListIndexes db coll 100 cur)))"
proof -
  have docs: "\<exists>log. fetchLoop (stableListing keyName items) (ListDocuments db coll) keyName P [] None h
                     = Some (Inr items, h @ log) \<and>
                  length log = length items div P + 1 \<and>
                  (\<forall>(c, r) \<in> set log. \<exists>cur. c = ListDocuments db coll P cur)"
    by (rule fetchLoop_stable_all [OF assms]) (simp add: stableListing_def)
  have colls: "\<exists>log. fetchLoop (stableListing keyName items) (ListCollections db) keyName 100 [] None h
                     = Some (Inr items, h @ log) \<and>
                  length log = length items div 100 + 1 \<and>
                  (\<forall>(c, r) \<in> set log. \<exists>cur. c = ListCollections db 100 cur)"
    by (rule fetchLoop_stable_all [OF _ assms(2,3)]) (simp_all add: stableListing_def)
  have attrs: "\<exists>log. fetchLoop (stableListing keyName items) (ListAttributes db coll) keyName 100 [] None h
                     = Some (Inr items, h @ log) \<and>
                  length log = length items div 100 + 1 \<and>
                  (\<forall>(c, r) \<in> set log. \<exists>cur. c = ListAttributes db coll 100 cur)"
    by (rule fetchLoop_stable_all [OF _ assms(2,3)]) (simp_all add: stableListing_def)
  have idxs: "\<exists>log. fetchLoop (stableListing keyName items) (ListIndexes db coll) keyName 100 [] None h
                     = Some (Inr items, h @ log) \<and>
                  length log = length items div 100 + 1 \<and>
                  (\<forall>(c, r) \<in> set log. \<exists>cur. c = ListIndexes db coll 100 cur)"
    by (rule fetchLoop_stable_all [OF _ assms(2,3)]) (simp_all add: stableListing_def)
  from docs colls attrs idxs show ?thesis
    unfolding fetchAllDocuments_def fetchAllCollections_def fetchAllAttributes_def
      fetchAllIndexes_def
    by blast
qed

text \<open>Three documents in pages of two: two requests.\<close>

theorem paginator_returns_all_witness:
  "\<exists>log. fetchAllDocuments
           (stableListing ''$id''
              [[(''$id'', JStr ''a'')], [(''$id'', JStr ''b'')], [(''$id'', JStr ''c'')]])
           2 ''db'' (Some (JStr ''books'')) []
         = Some (Inr [[(''$id'', JStr ''a'')], [(''$id'', JStr ''b'')], [(''$id'', JStr ''c'')]], log)
       \<and> length log = 2"
proof -
  let ?items = "[[(''$id'', JStr ''a'')], [(''$id'', JStr ''b'')], [(''$id'', JStr ''c'')]]"
  have h1: "(0::nat) < 2" by simp
  have h2: "distinct (map (field ''$id'') ?items)" by (simp add: field_def)
  have h3: "\<forall>x \<in> set ?items. truthy (field ''$id'' x)" by (simp add: field_def)
  from paginator_returns_all [OF h1 h2 h3, of "''db''" "Some (JStr ''books'')" "[]"]
  show ?thesis by auto
qed

text \<open>
  Claim C2 as stated gives \<open>ceil(N/P)\<close> requests. Two documents in pages of two take two
  requests (the second gets the empty page), not one.
\<close>

theorem paginator_request_count_counterexample:
  "map_option (\<lambda>(r, h). (r, length h))
     (fetchAllDocuments
        (stableListing ''$id'' [[(''$id'', JStr ''a'')], [(''$id'', JStr ''b'')]])
        2 ''db'' (Some (JStr ''books'')) [])
   = Some (Inr [[(''$id'', JStr ''a'')], [(''$id'', JStr ''b'')]], 2)
   \<and> ceilDiv 2 2 = 1"
  by (simp add: fetchAllDocuments_def fetchLoop.simps request_def stableListing_def
        pageAfter_def field_def ceilDiv_def)

subsection \<open>Schema replicator\<close>



text \<open>
  Claim C4. Against a service whose listings (each shorter than a page) change with time.
  \<^verbatim>\<open>waitForAttribute\<close>, with its budget of 30, returns \<^verbatim>\<open>true\<close> exactly when one of the
  next 30 listings shows the key as \<^verbatim>\<open>available\<close>, and \<^verbatim>\<open>false\<close> otherwise, without
  raising; the calls it makes are those of \<open>pollLog\<close>: a listing request, then, as long as
  the key is not available, a sleep of 1000 ms and the next request, until the budget is
  spent. So it makes at most 30 requests and 30 sleeps, exactly 30 of both when it returns
  \<^verbatim>\<open>false\<close>, and one sleep less than requests when it returns \<^verbatim>\<open>true\<close>. The same holds for
  \<^verbatim>\<open>waitForIndex\<close> with 60. \<^verbatim>\<open>createAttributes\<close> and \<^verbatim>\<open>createIndexes\<close> return whatever
  the polls return: after each creation call they poll with these budgets (\<open>attributesLog\<close>
  and \<open>indexesLog\<close> are their calls) and go on with the next item, they count every
  creation as a success, and their error lists hold the attributes of unknown type and
  nothing else, so a poll that timed out is recorded nowhere.
\<close>

theorem readiness_poll_budget:
  assumes short: "\<forall>i. length (listing i) < 100"
  shows "waitForAttribute (scripted listing) databaseId collectionId key 30 h
           = Some (Inr (\<exists>i<30. keyAvailable key (listing (listingsSoFar h + i))),
                   h @ pollLog (ListAttributes databaseId collectionId 100 None) listing key
                         (listingsSoFar h) 30) \<and>
         waitForIndex (scripted listing) databaseId collectionId key 60 h
           = Some (Inr (\<exists>i<60. keyAvailable key (listing (listingsSoFar h + i))),
                   h @ pollLog (ListIndexes databaseId collectionId 100 None) listing key
                         (listingsSoFar h) 60) \<and>
         (\<forall>c n left. isListing c \<longrightarrow>
            listingsSoFar (pollLog c listing key n left) \<le> left \<and>
            sleepsIn (pollLog c listing key n left) \<le> left \<and>
            (if \<exists>i<left. keyAvailable key (listing (n + i))
             then Suc (sleepsIn (pollLog c listing key n left))
                    = listingsSoFar (pollLog c listing key n left)
             else listingsSoFar (pollLog c listing key n left) = left \<and>
                  sleepsIn (pollLog c listing key n left) = left)) \<and>
         createAttributes (scripted listing) databaseId collectionId attributes h
           = Some (Inr \<lparr>successCount = length (filter submittable attributes),
                        errorCount = length (filter unknownType attributes),
                        errors = map (\<lambda>a. (field ''key'' a,
                                            Some (unknownTypeMessage (field ''type'' a))))
                                   (filter unknownType attributes)\<rparr>,
                   h @ attributesLog listing databaseId collectionId attributes
                         (listingsSoFar h)) \<and>
         createIndexes (scripted listing) databaseId collectionId indexes h
           = Some (Inr \<lparr>successCount = length indexes, errorCount = 0, errors = []\<rparr>,
                   h @ indexesLog listing databaseId collectionId indexes (listingsSoFar h))"
proof (intro conjI allI impI)
  show "waitForAttribute (scripted listing) databaseId collectionId key 30 h
           = Some (Inr (\<exists>i<30. keyAvailable key (listing (listingsSoFar h + i))),
                   h @ pollLog (ListAttributes databaseId collectionId 100 None) listing key
                         (listingsSoFar h) 30)"
    using waitForAttribute_scripted [OF short, of databaseId collectionId key 30 h]
    unfolding pollResult_iff .
  show "waitForIndex (scripted listing) databaseId collectionId key 60 h
           = Some (Inr (\<exists>i<60. keyAvailable key (listing (listingsSoFar h + i))),
                   h @ pollLog (ListIndexes databaseId collectionId 100 None) listing key
                         (listingsSoFar h) 60)"
    using waitForIndex_scripted [OF short, of databaseId collectionId key 60 h]
    unfolding pollResult_iff .
  show "createAttributes (scripted listing) databaseId collectionId attributes h
           = Some (Inr \<lparr>successCount = length (filter submittable attributes),
                        errorCount = length (filter unknownType attributes),
                        errors = map (\<lambda>a. (field ''key'' a,
                                            Some (unknownTypeMessage (field ''type'' a))))
                                   (filter unknownType attributes)\<rparr>,
                   h @ attributesLog listing databaseId collectionId attributes
                         (listingsSoFar h))"
    using createAttributesLoop_scripted [OF short, of databaseId collectionId attributes
        "\<lparr>successCount = 0, errorCount = 0, errors = []\<rparr>" h]
    by (simp add: createAttributes_def)
  show "createIndexes (scripted listing) databaseId collectionId indexes h
           = Some (Inr \<lparr>successCount = length indexes, errorCount = 0, errors = []\<rparr>,
                   h @ indexesLog listing databaseId collectionId indexes (listingsSoFar h))"
    using createIndexesLoop_scripted [OF short, of databaseId collectionId indexes
        "\<lparr>successCount = 0, errorCount = 0, errors = []\<rparr>" h]
    by (simp add: createIndexes_def)
next
  fix c :: call and n left
  assume c: "isListing c"
  from pollLog_counts [OF c, of listing key n left]
  show "listingsSoFar (pollLog c listing key n left) \<le> left" by simp
  from pollLog_counts [OF c, of listing key n left]
  show "sleepsIn (pollLog c listing key n left) \<le> left" by simp
  from pollLog_counts [OF c, of listing key n left]
  show "if \<exists>i<left. keyAvailable key (listing (n + i))
        then Suc (sleepsIn (pollLog c listing key n left))
               = listingsSoFar (pollLog c listing key n left)
        else listingsSoFar (pollLog c listing key n left) = left \<and>
             sleepsIn (pollLog c listing key n left) = left"
    unfolding pollResult_iff by simp
qed

text \<open>
  An attribute and an index that stay \<^verbatim>\<open>processing\<close> for ever: the poll for the attribute
  returns \<^verbatim>\<open>false\<close> after 30 requests and 30 sleeps, in turn; \<^verbatim>\<open>createAttributes\<close> makes
  \<open>1 + 30 + 30\<close> calls and \<^verbatim>\<open>createIndexes\<close> makes \<open>1 + 60 + 60\<close>, and both report one
  success and no error.
\<close>

theorem readiness_poll_budget_witness:
  "(\<forall>i::nat. length [[(''key'', JStr ''title''), (''status'', JStr ''processing'')]] < 100) \<and>
   map_option (\<lambda>(r, l). (r, length l, listingsSoFar l, sleepsIn l, take 4 l))
     (waitForAttribute
        (scripted (\<lambda>i. [[(''key'', JStr ''title''), (''status'', JStr ''processing'')]]))
        ''db'' (Some (JStr ''books'')) (Some (JStr ''title'')) 30 [])
     = Some (Inr False, 60, 30, 30,
             [(ListAttributes ''db'' (Some (JStr ''books'')) 100 None,
               Listed [[(''key'', JStr ''title''), (''status'', JStr ''processing'')]]),
              (Sleep 1000, Done),
              (ListAttributes ''db'' (Some (JStr ''books'')) 100 None,
               Listed [[(''key'', JStr ''title''), (''status'', JStr ''processing'')]]),
              (Sleep 1000, Done)]) \<and>
   map_option (\<lambda>(r, l). (r, length l, listingsSoFar l, sleepsIn l))
     (createAttributes
        (scripted (\<lambda>i. [[(''key'', JStr ''title''), (''status'', JStr ''processing'')]]))
        ''db'' (Some (JStr ''books''))
        [[(''key'', JStr ''title''), (''type'', JStr ''string'')]] [])
     = Some (Inr \<lparr>successCount = 1, errorCount = 0, errors = []\<rparr>, 61, 30, 30) \<and>
   map_option (\<lambda>(r, l). (r, length l, listingsSoFar l, sleepsIn l))
     (createIndexes
        (scripted (\<lambda>i. [[(''key'', JStr ''title''), (''status'', JStr ''processing'')]]))
        ''db'' (Some (JStr ''books''))
        [[(''key'', JStr ''title''), (''type'', JStr ''key''),
          (''attributes'', JArr [JStr ''title''])]] [])
     = Some (Inr \<lparr>successCount = 1, errorCount = 0, errors = []\<rparr>, 121, 60, 60)"
proof -
  let ?listing = "\<lambda>i::nat. [[(''key'', JStr ''title''), (''status'', JStr ''processing'')]]"
  let ?attrs = "[[(''key'', JStr ''title''), (''type'', JStr ''string'')]]"
  let ?idxs = "[[(''key'', JStr ''title''), (''type'', JStr ''key''),
                 (''attributes'', JArr [JStr ''title''])]]"
  let ?coll = "Some (JStr ''books'')"
  let ?key = "Some (JStr ''title'')"
  let ?poll = "pollLog (ListAttributes ''db'' ?coll 100 None) ?listing ?key 0 30"
  have short: "\<forall>i. length (?listing i) < 100" by simp
  have never: "\<not> keyAvailable ?key (?listing i)" for i
    by (simp add: keyAvailable_def isAvailable_def field_def)
  have known: "filter submittable ?attrs = ?attrs" "filter unknownType ?attrs = []"
    by code_simp+
  have poll: "length ?poll = 60" "take 4 ?poll =
             [(ListAttributes ''db'' ?coll 100 None, Listed (?listing 0)), (Sleep 1000, Done),
              (ListAttributes ''db'' ?coll 100 None, Listed (?listing 0)), (Sleep 1000, Done)]"
    by code_simp+
  have alog: "length (attributesLog ?listing ''db'' ?coll ?attrs 0) = 61"
    "listingsSoFar (attributesLog ?listing ''db'' ?coll ?attrs 0) = 30"
    "sleepsIn (attributesLog ?listing ''db'' ?coll ?attrs 0) = 30"
    by code_simp+
  have ilog: "length (indexesLog ?listing ''db'' ?coll ?idxs 0) = 121"
    "listingsSoFar (indexesLog ?listing ''db'' ?coll ?idxs 0) = 60"
    "sleepsIn (indexesLog ?listing ''db'' ?coll ?idxs 0) = 60"
    by code_simp+
  note t = readiness_poll_budget [OF short, of "''db''" ?coll ?key "[]" ?attrs ?idxs]
  have counts: "listingsSoFar ?poll = 30 \<and> sleepsIn ?poll = 30"
    using t [THEN conjunct2, THEN conjunct2, THEN conjunct1, rule_format,
             of "ListAttributes ''db'' ?coll 100 None" 0 30] never
    by simp
  have w: "map_option (\<lambda>(r, l). (r, length l, listingsSoFar l, sleepsIn l, take 4 l))
             (waitForAttribute (scripted ?listing) ''db'' ?coll ?key 30 [])
           = Some (Inr False, 60, 30, 30,
              [(ListAttributes ''db'' ?coll 100 None, Listed (?listing 0)), (Sleep 1000, Done),
               (ListAttributes ''db'' ?coll 100 None, Listed (?listing 0)), (Sleep 1000, Done)])"
    unfolding t [THEN conjunct1] using never counts poll
    by (simp add: listingsSoFar_def)
  have a: "map_option (\<lambda>(r, l). (r, length l, listingsSoFar l, sleepsIn l))
             (createAttributes (scripted ?listing) ''db'' ?coll ?attrs [])
           = Some (Inr \<lparr>successCount = 1, errorCount = 0, errors = []\<rparr>, 61, 30, 30)"
    unfolding t [THEN conjunct2, THEN conjunct2, THEN conjunct2, THEN conjunct1] known
    using alog by (simp add: listingsSoFar_def)
  have i: "map_option (\<lambda>(r, l). (r, length l, listingsSoFar l, sleepsIn l))
             (createIndexes (scripted ?listing) ''db'' ?coll ?idxs [])
           = Some (Inr \<lparr>successCount = 1, errorCount = 0, errors = []\<rparr>, 121, 60, 60)"
    unfolding t [THEN conjunct2, THEN conjunct2, THEN conjunct2, THEN conjunct2]
    using ilog by (simp add: listingsSoFar_def)
  from short w a i show ?thesis by blast
qed

text \<open>
  Claim C5, as the code has it. With \<open>l\<close> the calls that \<^verbatim>\<open>createAttributes\<close> made when it
  ends: the attribute creation calls in \<open>l\<close> are, in order, a prefix of the calls due for
  the attributes that are submittable, which are those that are not child-side
  relationships and whose type is one of \<^verbatim>\<open>string\<close>, \<^verbatim>\<open>integer\<close>, \<^verbatim>\<open>float\<close>, \<^verbatim>\<open>double\<close>,
  \<^verbatim>\<open>boolean\<close>, \<^verbatim>\<open>datetime\<close>, \<^verbatim>\<open>email\<close>, \<^verbatim>\<open>ip\<close>, \<^verbatim>\<open>url\<close>, \<^verbatim>\<open>enum\<close>, \<^verbatim>\<open>relationship\<close>; the
  call due for an attribute is made with the creator of its type. When \<^verbatim>\<open>createAttributes\<close>
  returns (no error thrown by a readiness poll), the calls made are all of these, each
  once; the error counter counts the rejected calls and the attributes of unknown type,
  the success counter the accepted calls, the error list has one entry for each error
  counted, and each attribute of unknown type has its entry with the message
  \<^verbatim>\<open>Unknown type\<close>.
\<close>

theorem only_known_types_are_submitted:
  assumes "createAttributes env databaseId collectionId attributes h = Some (r, h')"
  shows "\<exists>l rest. h' = h @ l \<and>
           map (submission databaseId collectionId) (filter submittable attributes)
             = attributeSubmissions l @ rest \<and>
           map sdkMethodOf (attributeSubmissions l @ rest)
             = map (\<lambda>a. creatorOf (field ''type'' a)) (filter submittable attributes) \<and>
           (\<forall>res. r = Inr res \<longrightarrow>
              rest = [] \<and>
              errorCount res
                = length (attributeFailures l) + length (filter unknownType attributes) \<and>
              successCount res + length (attributeFailures l)
                = length (attributeSubmissions l) \<and>
              length (errors res) = errorCount res \<and>
              (\<forall>a \<in> set attributes. unknownType a \<longrightarrow>
                 (field ''key'' a, Some (unknownTypeMessage (field ''type'' a)))
                   \<in> set (errors res)))"
proof -
  from assms obtain l rest where
    l: "h' = h @ l"
       "expectedSubmissions databaseId collectionId attributes = attributeSubmissions l @ rest"
       "\<And>res. r = Inr res \<Longrightarrow> rest = []"
    by (rule createAttributes_log) blast
  from l(2) have due: "map (submission databaseId collectionId) (filter submittable attributes)
                         = attributeSubmissions l @ rest"
    by (simp add: expectedSubmissions_map)
  have creators: "map sdkMethodOf (attributeSubmissions l @ rest)
                    = map (\<lambda>a. creatorOf (field ''type'' a)) (filter submittable attributes)"
    unfolding l(2) [symmetric] by (rule expectedSubmissions_methods)
  have returned: "rest = [] \<and>
              errorCount res
                = length (attributeFailures l) + length (filter unknownType attributes) \<and>
              successCount res + length (attributeFailures l)
                = length (attributeSubmissions l) \<and>
              length (errors res) = errorCount res \<and>
              (\<forall>a \<in> set attributes. unknownType a \<longrightarrow>
                 (field ''key'' a, Some (unknownTypeMessage (field ''type'' a)))
                   \<in> set (errors res))"
    if r: "r = Inr res" for res
  proof -
    from assms r have
      "createAttributesLoop env databaseId collectionId attributes
         \<lparr>successCount = 0, errorCount = 0, errors = []\<rparr> h = Some (Inr res, h')"
      by (simp add: createAttributes_def)
    from createAttributesLoop_counts [OF this] obtain l' where
      l': "h' = h @ l'"
          "errorCount res
             = length (attributeFailures l') + length (filter unknownType attributes)"
          "successCount res + length (attributeFailures l') = length (attributeSubmissions l')"
          "length (errors res) = errorCount res"
          "\<forall>a \<in> set attributes. unknownType a \<longrightarrow>
             (field ''key'' a, Some (unknownTypeMessage (field ''type'' a))) \<in> set (errors res)"
      by auto
    from l(1) l'(1) have "l' = l" by simp
    with l' l(3) [OF r] show ?thesis by simp
  qed
  from l(1) due creators returned show ?thesis by blast
qed

text \<open>
  One attribute of each of the eleven types, a child-side relationship and an attribute of
  the type \<^verbatim>\<open>point\<close>, at a service where nothing is ever \<^verbatim>\<open>available\<close>: eleven calls, by
  the eleven creators in source order, and one error, for \<^verbatim>\<open>point\<close>.
\<close>

theorem only_known_types_are_submitted_witness:
  "\<exists>r h'. createAttributes (scripted (\<lambda>i. [])) ''db'' (Some (JStr ''c''))
             [[(''key'', JStr ''k1''), (''type'', JStr ''string'')],
              [(''key'', JStr ''k2''), (''type'', JStr ''integer'')],
              [(''key'', JStr ''owner''), (''type'', JStr ''relationship''),
               (''side'', JStr ''child'')],
              [(''key'', JStr ''k3''), (''type'', JStr ''float'')],
              [(''key'', JStr ''k4''), (''type'', JStr ''double'')],
              [(''key'', JStr ''k5''), (''type'', JStr ''boolean'')],
              [(''key'', JStr ''loc''), (''type'', JStr ''point'')],
              [(''key'', JStr ''k6''), (''type'', JStr ''datetime'')],
              [(''key'', JStr ''k7''), (''type'', JStr ''email'')],
              [(''key'', JStr ''k8''), (''type'', JStr ''ip'')],
              [(''key'', JStr ''k9''), (''type'', JStr ''url'')],
              [(''key'', JStr ''k10''), (''type'', JStr ''enum'')],
              [(''key'', JStr ''k11''), (''type'', JStr ''relationship''),
               (''side'', JStr ''parent'')]] [] = Some (Inr r, h') \<and>
          map sdkMethodOf (attributeSubmissions h') =
            [''createStringAttribute'', ''createIntegerAttribute'', ''createFloatAttribute'',
             ''createFloatAttribute'', ''createBooleanAttribute'', ''createDatetimeAttribute'',
             ''createEmailAttribute'', ''createIpAttribute'', ''createUrlAttribute'',
             ''createEnumAttribute'', ''createRelationshipAttribute''] \<and>
          successCount r = 11 \<and> errorCount r = 1 \<and> length (errors r) = 1 \<and>
          (Some (JStr ''loc''), Some ''Unknown type: point'') \<in> set (errors r)"
proof -
  let ?listing = "\<lambda>i::nat. [] :: obj list"
  let ?loc = "[(''key'', JStr ''loc''), (''type'', JStr ''point'')]"
  let ?attrs = "[[(''key'', JStr ''k1''), (''type'', JStr ''string'')],
              [(''key'', JStr ''k2''), (''type'', JStr ''integer'')],
              [(''key'', JStr ''owner''), (''type'', JStr ''relationship''),
               (''side'', JStr ''child'')],
              [(''key'', JStr ''k3''), (''type'', JStr ''float'')],
              [(''key'', JStr ''k4''), (''type'', JStr ''double'')],
              [(''key'', JStr ''k5''), (''type'', JStr ''boolean'')],
              ?loc,
              [(''key'', JStr ''k6''), (''type'', JStr ''datetime'')],
              [(''key'', JStr ''k7''), (''type'', JStr ''email'')],
              [(''key'', JStr ''k8''), (''type'', JStr ''ip'')],
              [(''key'', JStr ''k9''), (''type'', JStr ''url'')],
              [(''key'', JStr ''k10''), (''type'', JStr ''enum'')],
              [(''key'', JStr ''k11''), (''type'', JStr ''relationship''),
               (''side'', JStr ''parent'')]]"
  let ?coll = "Some (JStr ''c'')"
  have short: "\<forall>i. length (?listing i) < 100" by simp
  have counted: "length (filter submittable ?attrs) = 11" "filter unknownType ?attrs = [?loc]"
    by code_simp+
  have creators: "map (\<lambda>a. creatorOf (field ''type'' a)) (filter submittable ?attrs) =
            [''createStringAttribute'', ''createIntegerAttribute'', ''createFloatAttribute'',
             ''createFloatAttribute'', ''createBooleanAttribute'', ''createDatetimeAttribute'',
             ''createEmailAttribute'', ''createIpAttribute'', ''createUrlAttribute'',
             ''createEnumAttribute'', ''createRelationshipAttribute'']"
    by code_simp
  have unknown: "unknownType ?loc"
    "unknownTypeMessage (field ''type'' ?loc) = ''Unknown type: point''"
    "field ''key'' ?loc = Some (JStr ''loc'')"
    by code_simp+
  have member: "?loc \<in> set ?attrs" by simp
  from createAttributesLoop_scripted [OF short, of "''db''" ?coll ?attrs
      "\<lparr>successCount = 0, errorCount = 0, errors = []\<rparr>" "[]"]
  obtain r h' where
    run: "createAttributes (scripted ?listing) ''db'' ?coll ?attrs [] = Some (Inr r, h')"
    and counts: "successCount r = 11" "errorCount r = 1" "length (errors r) = 1"
    unfolding counted by (simp add: createAttributes_def)
  from only_known_types_are_submitted [OF run] obtain l where
    l: "h' = [] @ l"
       "map sdkMethodOf (attributeSubmissions l)
          = map (\<lambda>a. creatorOf (field ''type'' a)) (filter submittable ?attrs)"
       "\<forall>a \<in> set ?attrs. unknownType a \<longrightarrow>
          (field ''key'' a, Some (unknownTypeMessage (field ''type'' a))) \<in> set (errors r)"
    by auto
  from l(3) member unknown(1) have
    "(field ''key'' ?loc, Some (unknownTypeMessage (field ''type'' ?loc))) \<in> set (errors r)"
    by blast
  then have entry: "(Some (JStr ''loc''), Some ''Unknown type: point'') \<in> set (errors r)"
    unfolding unknown(2,3) .
  from l(1,2) have made: "map sdkMethodOf (attributeSubmissions h') =
            [''createStringAttribute'', ''createIntegerAttribute'', ''createFloatAttribute'',
             ''createFloatAttribute'', ''createBooleanAttribute'', ''createDatetimeAttribute'',
             ''createEmailAttribute'', ''createIpAttribute'', ''createUrlAttribute'',
             ''createEnumAttribute'', ''createRelationshipAttribute'']"
    unfolding creators by simp
  show ?thesis
    by (rule exI [of _ r], rule exI [of _ h']) (intro conjI run made counts entry)
qed

text \<open>
  Claim C5 as stated has every attribute that is not a child-side relationship submitted.
  An attribute of a type outside the \<^verbatim>\<open>switch\<close> is not: no call is made for it, and it
  is counted as an error.
\<close>

theorem unknown_type_not_submitted_counterexample:
  "createAttributes (\<lambda>h c. Done) ''db'' (Some (JStr ''c''))
     [[(''key'', JStr ''loc''), (''type'', JStr ''point'')]] []
   = Some (Inr \<lparr>successCount = 0, errorCount = 1,
                errors = [(Some (JStr ''loc''), Some ''Unknown type: point'')]\<rparr>, [])
   \<and> \<not> isChildRelationship [(''key'', JStr ''loc''), (''type'', JStr ''point'')]"
  by code_simp

subsection \<open>Diff engine\<close>

text \<open>
  Claim C6, as the code has it. For a collection with a configured identifier field \<open>f\<close>: when the documents
  fetched from the destination carry the identifier values \<open>a\<close> and \<open>b\<close>, and every source
  document carries \<open>a\<close>, \<open>b\<close> or a third value \<open>c\<close>, then \<^verbatim>\<open>buildExistingRecordSet\<close> returns
  a set for which \<^verbatim>\<open>isDocumentMissing\<close> selects exactly the source documents keyed \<open>c\<close>.
  The identifier values are truthy primitives (non-empty strings, non-zero numbers,
  \<^verbatim>\<open>true\<close>), which \<^verbatim>\<open>Set\<close> compares by value.
\<close>

theorem diff_selects_missing:
  assumes cfg: "getUniqueIdentifierField collectionId = Some f"
      and fetch: "fetchAllDocuments env batchSize destDbId collectionId h = Some (Inr existingDocs, h')"
      and dest: "field f ` set existingDocs = {Some a, Some b}"
      and ids: "identifierValue a" "identifierValue b" "identifierValue c" "c \<noteq> a" "c \<noteq> b"
      and src: "\<forall>doc \<in> set sourceDocs. field f doc \<in> {Some a, Some b, Some c}"
  shows "\<exists>existingSet.
           buildExistingRecordSet env stringify batchSize destDbId collectionId h
             = Some (Inr (existingSet, Some f), h') \<and>
           filter (\<lambda>doc. isDocumentMissing stringify doc existingSet (Some f)) sourceDocs
             = filter (\<lambda>doc. field f doc = Some c) sourceDocs"
proof -
  let ?S = "buildExistingRecordSetLoop stringify (Some f) existingDocs []"
  have run: "buildExistingRecordSet env stringify batchSize destDbId collectionId h
               = Some (Inr (?S, Some f), h')"
    using buildExistingRecordSet_result [OF fetch] cfg by simp
  have keys: "documentKey stringify (Some f) d \<in> {Some a, Some b}" if "d \<in> set existingDocs" for d
  proof -
    from that dest have "field f d \<in> {Some a, Some b}" by blast
    with ids show ?thesis by (auto simp: documentKey_identifier)
  qed
  have has: "setHas ?S (Some v) = (v = a \<or> v = b)" if v: "identifierValue v" for v
  proof -
    have "setHas ?S (Some v) = (\<exists>d \<in> set existingDocs. documentKey stringify (Some f) d = Some v)"
      by (simp add: setHas_def set_loop strictEquals_value [OF v] image_iff) metis
    also have "\<dots> = (Some v \<in> field f ` set existingDocs)"
    proof
      assume "\<exists>d \<in> set existingDocs. documentKey stringify (Some f) d = Some v"
      then obtain d where d: "d \<in> set existingDocs" "documentKey stringify (Some f) d = Some v"
        by blast
      from d(1) dest have "field f d \<in> {Some a, Some b}" by blast
      with ids d(2) have "field f d = Some v"
        by (auto simp: documentKey_identifier)
      with d(1) show "Some v \<in> field f ` set existingDocs"
        by (metis imageI)
    next
      assume "Some v \<in> field f ` set existingDocs"
      then obtain d where d: "d \<in> set existingDocs" "field f d = Some v" by auto
      with v have "documentKey stringify (Some f) d = Some v"
        by (simp add: documentKey_identifier)
      with d show "\<exists>d \<in> set existingDocs. documentKey stringify (Some f) d = Some v" by blast
    qed
    also have "\<dots> = (v = a \<or> v = b)" using dest by auto
    finally show ?thesis .
  qed
  have "isDocumentMissing stringify doc ?S (Some f) = (field f doc = Some c)"
    if "doc \<in> set sourceDocs" for doc
  proof -
    from that src have "field f doc \<in> {Some a, Some b, Some c}" by blast
    then obtain v where v: "field f doc = Some v" "v \<in> {a, b, c}" by auto
    with ids have iv: "identifierValue v" by auto
    with v have "documentKey stringify (Some f) doc = Some v" by (simp add: documentKey_identifier)
    with has [OF iv] v ids show ?thesis
      by (auto simp: isDocumentMissing_documentKey)
  qed
  then have "filter (\<lambda>doc. isDocumentMissing stringify doc ?S (Some f)) sourceDocs
               = filter (\<lambda>doc. field f doc = Some c) sourceDocs"
    by (intro filter_cong) auto
  with run show ?thesis by blast
qed

text \<open>Destination \<open>{a, b}\<close>, source \<open>a, b, c\<close> in \<^verbatim>\<open>packaging_records\<close>: only \<open>c\<close> is missing.\<close>

theorem diff_selects_missing_witness:
  "\<exists>existingSet log.
     buildExistingRecordSet
       (stableListing ''$id''
          [[(''$id'', JStr ''d1''), (''waybill_number'', JStr ''a'')],
           [(''$id'', JStr ''d2''), (''waybill_number'', JStr ''b'')]])
       jsonText 100 ''dest'' (Some (JStr ''packaging_records'')) []
       = Some (Inr (existingSet, Some ''waybill_number''), log) \<and>
     filter (\<lambda>doc. isDocumentMissing jsonText doc existingSet (Some ''waybill_number''))
       [[(''$id'', JStr ''s1''), (''waybill_number'', JStr ''a'')],
        [(''$id'', JStr ''s2''), (''waybill_number'', JStr ''b'')],
        [(''$id'', JStr ''s3''), (''waybill_number'', JStr ''c'')]]
     = [[(''$id'', JStr ''s3''), (''waybill_number'', JStr ''c'')]]"
proof -
  let ?dest = "[[(''$id'', JStr ''d1''), (''waybill_number'', JStr ''a'')],
                [(''$id'', JStr ''d2''), (''waybill_number'', JStr ''b'')]]"
  let ?src = "[[(''$id'', JStr ''s1''), (''waybill_number'', JStr ''a'')],
               [(''$id'', JStr ''s2''), (''waybill_number'', JStr ''b'')],
               [(''$id'', JStr ''s3''), (''waybill_number'', JStr ''c'')]]"
  let ?cid = "Some (JStr ''packaging_records'')"
  have cfg: "getUniqueIdentifierField ?cid = Some ''waybill_number''"
    by (simp add: getUniqueIdentifierField_def templateText_def)
  have fetch: "fetchAllDocuments (stableListing ''$id'' ?dest) 100 ''dest'' ?cid []
                 = Some (Inr ?dest, [(ListDocuments ''dest'' ?cid 100 None, Listed ?dest)])"
    by (simp add: fetchAllDocuments_def fetchLoop.simps request_def stableListing_def
          pageAfter_def field_def)
  have dest: "field ''waybill_number'' ` set ?dest = {Some (JStr ''a''), Some (JStr ''b'')}"
    by (simp add: field_def)
  have src: "\<forall>doc \<in> set ?src. field ''waybill_number'' doc
               \<in> {Some (JStr ''a''), Some (JStr ''b''), Some (JStr ''c'')}"
    by (simp add: field_def)
  have ids: "identifierValue (JStr ''a'')" "identifierValue (JStr ''b'')"
    "identifierValue (JStr ''c'')" "JStr ''c'' \<noteq> JStr ''a''" "JStr ''c'' \<noteq> JStr ''b''"
    by simp_all
  from diff_selects_missing [OF cfg fetch dest ids src, of jsonText]
  obtain existingSet where
    run: "buildExistingRecordSet (stableListing ''$id'' ?dest) jsonText 100 ''dest'' ?cid []
            = Some (Inr (existingSet, Some ''waybill_number''),
                    [(ListDocuments ''dest'' ?cid 100 None, Listed ?dest)])"
    and sel: "filter (\<lambda>doc. isDocumentMissing jsonText doc existingSet (Some ''waybill_number''))
                ?src
              = filter (\<lambda>doc. field ''waybill_number'' doc = Some (JStr ''c'')) ?src"
    by blast
  have "filter (\<lambda>doc. field ''waybill_number'' doc = Some (JStr ''c'')) ?src
          = [[(''$id'', JStr ''s3''), (''waybill_number'', JStr ''c'')]]"
    by (simp add: field_def)
  with sel have "filter (\<lambda>doc. isDocumentMissing jsonText doc existingSet
                                  (Some ''waybill_number'')) ?src
                   = [[(''$id'', JStr ''s3''), (''waybill_number'', JStr ''c'')]]"
    by (rule trans)
  with run show ?thesis by blast
qed

text \<open>
  Claim C6 as stated does not say what the identifier values are. When the value \<open>a\<close> is
  falsy (here the number \<open>0\<close>), the documents that carry it are keyed by their content, and
  the source document keyed \<open>a\<close> is missing as soon as another field differs. When the
  values are objects (here \<^verbatim>\<open>packaging_record_id\<close> holds an expanded relationship), the
  \<^verbatim>\<open>Set\<close> compares them by reference, and all three source documents are missing.
\<close>

theorem diff_identifier_counterexample:
  "map_option
     (\<lambda>(r, log). case r of
        Inl e \<Rightarrow> []
      | Inr (existingSet, f) \<Rightarrow>
          filter (\<lambda>doc. isDocumentMissing jsonText doc existingSet f)
            [[(''$id'', JStr ''s1''), (''waybill_number'', JNum 0), (''note'', JStr ''new'')],
             [(''$id'', JStr ''s2''), (''waybill_number'', JStr ''b'')],
             [(''$id'', JStr ''s3''), (''waybill_number'', JStr ''c'')]])
     (buildExistingRecordSet
        (stableListing ''$id''
           [[(''$id'', JStr ''d1''), (''waybill_number'', JNum 0), (''note'', JStr ''old'')],
            [(''$id'', JStr ''d2''), (''waybill_number'', JStr ''b'')]])
        jsonText 100 ''dest'' (Some (JStr ''packaging_records'')) [])
   = Some [[(''$id'', JStr ''s1''), (''waybill_number'', JNum 0), (''note'', JStr ''new'')],
           [(''$id'', JStr ''s3''), (''waybill_number'', JStr ''c'')]] \<and>
   map_option
     (\<lambda>(r, log). case r of
        Inl e \<Rightarrow> []
      | Inr (existingSet, f) \<Rightarrow>
          filter (\<lambda>doc. isDocumentMissing jsonText doc existingSet f)
            [[(''$id'', JStr ''s1''), (''packaging_record_id'', JObj [(''$id'', JStr ''a'')])],
             [(''$id'', JStr ''s2''), (''packaging_record_id'', JObj [(''$id'', JStr ''b'')])],
             [(''$id'', JStr ''s3''), (''packaging_record_id'', JObj [(''$id'', JStr ''c'')])]])
     (buildExistingRecordSet
        (stableListing ''$id''
           [[(''$id'', JStr ''d1''), (''packaging_record_id'', JObj [(''$id'', JStr ''a'')])],
            [(''$id'', JStr ''d2''), (''packaging_record_id'', JObj [(''$id'', JStr ''b'')])]])
        jsonText 100 ''dest'' (Some (JStr ''packaging_items'')) [])
   = Some [[(''$id'', JStr ''s1''), (''packaging_record_id'', JObj [(''$id'', JStr ''a'')])],
           [(''$id'', JStr ''s2''), (''packaging_record_id'', JObj [(''$id'', JStr ''b'')])],
           [(''$id'', JStr ''s3''), (''packaging_record_id'', JObj [(''$id'', JStr ''c'')])]]"
  by code_simp

text \<open>
  Claim C10. Keying is decided per document. With a configured identifier field \<open>f\<close>, the
  existing-key set holds, for each destination document, the value of \<open>f\<close> when that value
  is truthy and the serialization of the sanitized document otherwise; and a source
  document whose \<open>f\<close> is absent or falsy is missing exactly when the serialization of its
  sanitized fields is not in that set.
\<close>

theorem keying_is_per_document:
  assumes cfg: "getUniqueIdentifierField collectionId = Some f"
      and fetch: "fetchAllDocuments env batchSize destDbId collectionId h = Some (Inr existingDocs, h')"
  shows "\<exists>existingSet.
           buildExistingRecordSet env stringify batchSize destDbId collectionId h
             = Some (Inr (existingSet, Some f), h') \<and>
           set existingSet =
             (\<lambda>doc. if truthy (field f doc) then field f doc
                     else Some (JStr (stringify (JObj (cleanDocumentData doc))))) ` set existingDocs \<and>
           (\<forall>doc. \<not> truthy (field f doc) \<longrightarrow>
              isDocumentMissing stringify doc existingSet (Some f) =
                (Some (JStr (stringify (JObj (cleanDocumentData doc)))) \<notin> set existingSet))"
proof -
  let ?S = "buildExistingRecordSetLoop stringify (Some f) existingDocs []"
  have run: "buildExistingRecordSet env stringify batchSize destDbId collectionId h
               = Some (Inr (?S, Some f), h')"
    using buildExistingRecordSet_result [OF fetch] cfg by simp
  have keys: "set ?S = (\<lambda>doc. if truthy (field f doc) then field f doc
                     else Some (JStr (stringify (JObj (cleanDocumentData doc))))) ` set existingDocs"
    by (simp add: set_loop documentKey_def identifierOf_def)
  have miss: "isDocumentMissing stringify doc ?S (Some f) =
                (Some (JStr (stringify (JObj (cleanDocumentData doc)))) \<notin> set ?S)"
    if "\<not> truthy (field f doc)" for doc
    using that
    by (simp add: isDocumentMissing_documentKey documentKey_fallback setHas_def strictEquals_string)
  from run keys miss show ?thesis by blast
qed

text \<open>
  One destination document with a waybill number and one without: the set mixes an
  identifier key and a content key. A source document without the field is found by its
  content; one whose field is the empty string is keyed by its content too, and is missing.
\<close>

theorem keying_is_per_document_witness:
  "\<exists>existingSet log.
     buildExistingRecordSet
       (stableListing ''$id''
          [[(''$id'', JStr ''d1''), (''waybill_number'', JStr ''a'')],
           [(''$id'', JStr ''d2''), (''note'', JStr ''x'')]])
       jsonText 100 ''dest'' (Some (JStr ''packaging_records'')) []
       = Some (Inr (existingSet, Some ''waybill_number''), log) \<and>
     set existingSet
       = {Some (JStr ''a''), Some (JStr (jsonText (JObj [(''note'', JStr ''x'')])))} \<and>
     \<not> isDocumentMissing jsonText [(''$id'', JStr ''s2''), (''note'', JStr ''x'')]
         existingSet (Some ''waybill_number'') \<and>
     isDocumentMissing jsonText
       [(''$id'', JStr ''s3''), (''waybill_number'', JStr []), (''note'', JStr ''x'')]
       existingSet (Some ''waybill_number'')"
proof -
  let ?dest = "[[(''$id'', JStr ''d1''), (''waybill_number'', JStr ''a'')],
                [(''$id'', JStr ''d2''), (''note'', JStr ''x'')]]"
  let ?cid = "Some (JStr ''packaging_records'')"
  have cfg: "getUniqueIdentifierField ?cid = Some ''waybill_number''"
    by (simp add: getUniqueIdentifierField_def templateText_def)
  have fetch: "fetchAllDocuments (stableListing ''$id'' ?dest) 100 ''dest'' ?cid []
                 = Some (Inr ?dest, [(ListDocuments ''dest'' ?cid 100 None, Listed ?dest)])"
    by (simp add: fetchAllDocuments_def fetchLoop.simps request_def stableListing_def
          pageAfter_def field_def)
  have c1: "cleanDocumentData [(''$id'', JStr ''d2''), (''note'', JStr ''x'')]
              = [(''note'', JStr ''x'')]"
    by code_simp
  have c2: "cleanDocumentData [(''$id'', JStr ''s2''), (''note'', JStr ''x'')]
              = [(''note'', JStr ''x'')]"
    by code_simp
  have c3: "cleanDocumentData
              [(''$id'', JStr ''s3''), (''waybill_number'', JStr []), (''note'', JStr ''x'')]
              = [(''waybill_number'', JStr []), (''note'', JStr ''x'')]"
    by code_simp
  have t1: "jsonText (JObj [(''note'', JStr ''x'')]) = ''{'' @ quoted ''note'' @ '':'' @ quoted ''x'' @ ''}''"
    by simp
  have t3: "jsonText (JObj [(''waybill_number'', JStr []), (''note'', JStr ''x'')])
             \<noteq> jsonText (JObj [(''note'', JStr ''x'')])"
    by (simp add: quoted_def)
  from keying_is_per_document [OF cfg fetch, of jsonText]
  obtain existingSet where
    run: "buildExistingRecordSet (stableListing ''$id'' ?dest) jsonText 100 ''dest'' ?cid []
            = Some (Inr (existingSet, Some ''waybill_number''),
                    [(ListDocuments ''dest'' ?cid 100 None, Listed ?dest)])"
    and keys: "set existingSet =
             (\<lambda>doc. if truthy (field ''waybill_number'' doc) then field ''waybill_number'' doc
                     else Some (JStr (jsonText (JObj (cleanDocumentData doc))))) ` set ?dest"
    and miss: "\<And>doc. \<not> truthy (field ''waybill_number'' doc) \<Longrightarrow>
              isDocumentMissing jsonText doc existingSet (Some ''waybill_number'') =
                (Some (JStr (jsonText (JObj (cleanDocumentData doc)))) \<notin> set existingSet)"
    by blast
  have k: "set existingSet
       = {Some (JStr ''a''), Some (JStr (jsonText (JObj [(''note'', JStr ''x'')])))}"
    unfolding keys by (simp add: field_def c1 insert_commute del: jsonText.simps)
  have m2: "\<not> isDocumentMissing jsonText [(''$id'', JStr ''s2''), (''note'', JStr ''x'')]
         existingSet (Some ''waybill_number'')"
    by (subst miss) (simp_all add: field_def c2 k del: jsonText.simps)
  have m3: "isDocumentMissing jsonText
       [(''$id'', JStr ''s3''), (''waybill_number'', JStr []), (''note'', JStr ''x'')]
       existingSet (Some ''waybill_number'')"
    using t3 by (subst miss) (simp_all add: field_def c3 k quoted_def)
  from run k m2 m3 show ?thesis by blast
qed

subsection \<open>Cache file\<close>



text \<open>
  Claim C8. Whatever a run of \<^verbatim>\<open>cloneDatabase\<close> writes to the cache file is an object with
  exactly the fields \<^verbatim>\<open>sourceDbId\<close>, \<^verbatim>\<open>destDbId\<close>, \<^verbatim>\<open>fetchedAt\<close> and \<^verbatim>\<open>collections\<close>, in this
  order, with one entry in \<^verbatim>\<open>collections\<close> for each source collection, in their order:
  an object with no other fields than \<^verbatim>\<open>collectionId\<close>, \<^verbatim>\<open>collectionName\<close>,
  \<^verbatim>\<open>documentCount\<close> and \<^verbatim>\<open>documents\<close>, where \<^verbatim>\<open>documents\<close> are the documents fetched for
  the collection and \<^verbatim>\<open>documentCount\<close> is their number.
\<close>

theorem snapshot_shape:
  assumes run: "cloneDatabase env stringify batchSize fetchedAt sourceDbId destDbId options h
                  = Some (r, h')"
      and wrote: "data \<in> set (snapshotsWritten (drop (length h) h'))"
  shows "\<exists>collections g entries.
           fetchAllCollections env sourceDbId h = Some (Inr collections, g) \<and>
           data = JObj [(''sourceDbId'', JStr sourceDbId), (''destDbId'', JStr destDbId),
                        (''fetchedAt'', JStr fetchedAt), (''collections'', JArr entries)] \<and>
           list_all2 (snapshotEntry env batchSize sourceDbId) collections entries"
  using run
proof (cases rule: cloneDatabase_log)
  case (quiet l)
  with wrote schema_quiet(4) [OF quiet(2)] show ?thesis by simp
next
  case (unwritten collections g cds l x e)
  from wrote unwritten(3) schema_quiet(4) [OF unwritten(4)]
  have "data = cacheData sourceDbId destDbId fetchedAt cds" by simp
  with unwritten(1) fetched_entries [OF unwritten(2)] show ?thesis
    by (auto simp: cacheData_def)
next
  case (aborted collections g cds l x l2 e)
  from wrote aborted(3) schema_quiet(4) [OF aborted(4)] snapshot_quiet(3) [OF aborted(6)]
  have "data = cacheData sourceDbId destDbId fetchedAt cds" by simp
  with aborted(1) fetched_entries [OF aborted(2)] show ?thesis
    by (auto simp: cacheData_def)
next
  case (finished collections g cds l x l2 y)
  from wrote finished(3) schema_quiet(4) [OF finished(4)] snapshot_quiet(3) [OF finished(6)]
  have "data = cacheData sourceDbId destDbId fetchedAt cds" by simp
  with finished(1) fetched_entries [OF finished(2)] show ?thesis
    by (auto simp: cacheData_def)
qed

text \<open>The cache file of the library.\<close>

theorem snapshot_shape_witness:
  "\<exists>r log entries.
     cloneDatabase library jsonText 100 ''2026-01-01T00:00:00.000Z'' ''src'' ''dst''
       \<lparr>cloneStructure = False, cloneData = True, missingOnly = False\<rparr> [] = Some (r, log) \<and>
     snapshotsWritten log
       = [JObj [(''sourceDbId'', JStr ''src''), (''destDbId'', JStr ''dst''),
                (''fetchedAt'', JStr ''2026-01-01T00:00:00.000Z''),
                (''collections'', JArr entries)]] \<and>
     list_all2 (snapshotEntry library 100 ''src'')
       [[(''$id'', JStr ''books''), (''name'', JStr ''Books'')]] entries"
proof -
  let ?t = "''2026-01-01T00:00:00.000Z''"
  let ?data = "\<lparr>cloneStructure = False, cloneData = True, missingOnly = False\<rparr>"
  let ?books = "[(''$id'', JStr ''books''), (''name'', JStr ''Books'')]"
  have listed: "fetchAllCollections library ''src'' [] =
                  Some (Inr [?books], [(ListCollections ''src'' 100 None, Listed [?books])])"
    by (simp add: fetchAllCollections_def fetchLoop.simps library_def)
  have "map_option (\<lambda>(r, log). length (snapshotsWritten log))
          (cloneDatabase library jsonText 100 ?t ''src'' ''dst'' ?data []) = Some 1"
    by code_simp
  then obtain r log d where
    run: "cloneDatabase library jsonText 100 ?t ''src'' ''dst'' ?data [] = Some (r, log)"
    and one: "snapshotsWritten log = [d]"
    by (auto simp: length_Suc_conv)
  from one have "d \<in> set (snapshotsWritten (drop (length ([] :: history)) log))" by simp
  from snapshot_shape [OF run this] listed one run show ?thesis by auto
qed

text \<open>
  Claim C8 as stated names the first two fields \<^verbatim>\<open>sourceId\<close> and \<^verbatim>\<open>destId\<close>. The file
  that the run on the library writes has neither: its fields are \<^verbatim>\<open>sourceDbId\<close>,
  \<^verbatim>\<open>destDbId\<close>, \<^verbatim>\<open>fetchedAt\<close> and \<^verbatim>\<open>collections\<close>.
\<close>

theorem snapshot_fields_counterexample:
  "map_option
     (\<lambda>(r, log). map (\<lambda>d. case d of
                              JObj ob \<Rightarrow> (map fst ob, field ''sourceId'' ob, field ''destId'' ob)
                            | _ \<Rightarrow> ([], None, None))
                   (snapshotsWritten log))
     (cloneDatabase library jsonText 100 ''2026-01-01T00:00:00.000Z'' ''src'' ''dst''
        \<lparr>cloneStructure = False, cloneData = True, missingOnly = False\<rparr> [])
   = Some [([''sourceDbId'', ''destDbId'', ''fetchedAt'', ''collections''], None, None)]"
  by code_simp

end
